theory Spec2Isabelle
  imports Main "HOL-Library.Word"
begin

section \<open>The stack machine shared by all interpreter variants\<close>

text \<open>
  Every variant declares \<^verbatim>\<open>typedef uint64_t word_t\<close>, a static array
  \<^verbatim>\<open>static word_t stack[STACK_SIZE]\<close> with \<^verbatim>\<open>STACK_SIZE\<close> 1024, and the three
  registers \<^verbatim>\<open>ip\<close>, \<^verbatim>\<open>sp\<close>, \<^verbatim>\<open>bp\<close>.

  The registers are pointers in C. Here \<open>sp\<close> and \<open>bp\<close> are indices into the stack array
  and \<open>ip\<close> is an index into the code vector, so that pointer arithmetic is integer
  arithmetic. The cells of the stack array are the indices \<open>0 \<le> i < STACK_SIZE\<close>.
  C gives no meaning to a load or store outside an array, and none of the variants
  checks for it; such an access ends the run of the model with the outcome
  \<open>Undefined\<close>, which is not a failure the program reports but the mark that the
  C program has left defined behaviour. The only failure a variant reports itself
  is the \<^verbatim>\<open>abort()\<close> of wordcode.c, the outcome \<open>Abort\<close>.
\<close>

type_synonym word_t = "64 word"

definition STACK_SIZE :: int where
  "STACK_SIZE = 1024"

datatype undefined_access =
    Stack_Store    \<comment> \<open>a store outside \<^verbatim>\<open>stack[0 .. STACK_SIZE - 1]\<close>\<close>
  | Stack_Load     \<comment> \<open>a load outside \<^verbatim>\<open>stack[0 .. STACK_SIZE - 1]\<close>\<close>
  | Code_Fetch     \<comment> \<open>a fetch outside the code vector\<close>
  | Table_Index    \<comment> \<open>an index outside the literal, primitive or function table\<close>
  | Wild_Jump      \<comment> \<open>an indirect jump or call through a word that is no handler\<close>
  | Handler_Value  \<comment> \<open>the numeric value of a handler address used as data\<close>

datatype outcome =
    Return word_t
  | Abort
  | Undefined undefined_access

record interpreter =
  ip :: int
  sp :: int
  bp :: int
  stack :: "int \<Rightarrow> word_t"

record function_rec =
  frame_size :: int
  entry :: int

record 'c program =
  code :: "'c list"
  literals :: "word_t list"
  functions_t :: "function_rec list"

text \<open>Sequencing of operations that may leave the dispatch loop (\<open>Inl\<close>).\<close>

definition bnd :: "outcome + 'a \<Rightarrow> ('a \<Rightarrow> outcome + 'b) \<Rightarrow> outcome + 'b" where
  "bnd m f = (case m of Inl r \<Rightarrow> Inl r | Inr x \<Rightarrow> f x)"

text \<open>
  Casts between pointers and words. \<^verbatim>\<open>(word_t) bp\<close> is the index itself. A code
  pointer is never null in C, while the outermost frame stores the word 0 as its saved
  \<open>ip\<close>; the code index \<open>i\<close> is therefore cast to the word \<open>i + 1\<close>, and the null
  pointer is the index \<open>-1\<close>, which no fetch can use.
\<close>

definition NULL :: int where
  "NULL = - 1"

definition word_of_sp :: "int \<Rightarrow> word_t" where
  "word_of_sp p = word_of_int p"

definition sp_of_word :: "word_t \<Rightarrow> int" where
  "sp_of_word w = uint w"

definition word_of_ip :: "int \<Rightarrow> word_t" where
  "word_of_ip i = word_of_int (i + 1)"

definition ip_of_word :: "word_t \<Rightarrow> int" where
  "ip_of_word w = uint w - 1"

text \<open>\<^verbatim>\<open>*(interp->sp)++ = value\<close>\<close>

definition push :: "word_t \<Rightarrow> interpreter \<Rightarrow> outcome + interpreter" where
  "push v s =
     (if 0 \<le> sp s \<and> sp s < STACK_SIZE
      then Inr (s\<lparr>stack := (stack s)(sp s := v), sp := sp s + 1\<rparr>)
      else Inl (Undefined Stack_Store))"

text \<open>\<^verbatim>\<open>*--(interp->sp)\<close>\<close>

definition pop :: "interpreter \<Rightarrow> outcome + (word_t \<times> interpreter)" where
  "pop s =
     (if 0 < sp s \<and> sp s \<le> STACK_SIZE
      then Inr (stack s (sp s - 1), s\<lparr>sp := sp s - 1\<rparr>)
      else Inl (Undefined Stack_Load))"

text \<open>A load \<^verbatim>\<open>*p\<close> from the stack array.\<close>

definition load :: "int \<Rightarrow> interpreter \<Rightarrow> outcome + word_t" where
  "load a s =
     (if 0 \<le> a \<and> a < STACK_SIZE then Inr (stack s a) else Inl (Undefined Stack_Load))"

text \<open>A store \<^verbatim>\<open>*p = v\<close> into the stack array.\<close>

definition store :: "int \<Rightarrow> word_t \<Rightarrow> interpreter \<Rightarrow> outcome + interpreter" where
  "store a v s =
     (if 0 \<le> a \<and> a < STACK_SIZE then Inr (s\<lparr>stack := (stack s)(a := v)\<rparr>)
      else Inl (Undefined Stack_Store))"

text \<open>
  \<^verbatim>\<open>memcpy(dst, src, count * sizeof(word_t))\<close> between cells of the stack array: both
  ranges have to lie inside the array.
\<close>

definition memcpy :: "int \<Rightarrow> int \<Rightarrow> word_t \<Rightarrow> interpreter \<Rightarrow> outcome + interpreter" where
  "memcpy dst src count s =
     (if \<not> (0 \<le> src \<and> src + uint count \<le> STACK_SIZE) then Inl (Undefined Stack_Load)
      else if \<not> (0 \<le> dst \<and> dst + uint count \<le> STACK_SIZE) then Inl (Undefined Stack_Store)
      else Inr (s\<lparr>stack := (\<lambda>i. if dst \<le> i \<and> i < dst + uint count
                                   then stack s (src + (i - dst)) else stack s i)\<rparr>))"

text \<open>\<^verbatim>\<open>table[word]\<close> for the literal, primitive and function tables.\<close>

definition lookup :: "'a list \<Rightarrow> word_t \<Rightarrow> outcome + 'a" where
  "lookup table w =
     (if unat w < length table then Inr (table ! unat w) else Inl (Undefined Table_Index))"

text \<open>
  The primitives: \<^verbatim>\<open>int64_t rhs = pop(); int64_t lhs = pop(); push(lhs op rhs)\<close>, with
  two's-complement 64-bit arithmetic.
\<close>

definition lessThan_prim :: "interpreter \<Rightarrow> outcome + interpreter" where
  "lessThan_prim s =
     bnd (pop s) (\<lambda>(rhs, s). bnd (pop s) (\<lambda>(lhs, s).
       push (if sint lhs < sint rhs then 1 else 0) s))"

definition subtract_prim :: "interpreter \<Rightarrow> outcome + interpreter" where
  "subtract_prim s =
     bnd (pop s) (\<lambda>(rhs, s). bnd (pop s) (\<lambda>(lhs, s). push (lhs - rhs) s))"

definition add_prim :: "interpreter \<Rightarrow> outcome + interpreter" where
  "add_prim s =
     bnd (pop s) (\<lambda>(rhs, s). bnd (pop s) (\<lambda>(lhs, s). push (lhs + rhs) s))"

definition prim_handlers :: "(interpreter \<Rightarrow> outcome + interpreter) list" where
  "prim_handlers = [lessThan_prim, subtract_prim, add_prim]"

text \<open>
  The dispatch loop \<^verbatim>\<open>while (true) { ... }\<close> may run forever: \<open>loop\<close> is \<open>None\<close>
  then. \<open>run k\<close> performs at most \<open>k\<close> iterations.
\<close>

partial_function (option) loop :: "('s \<Rightarrow> outcome + 's) \<Rightarrow> 's \<Rightarrow> outcome option" where
  "loop step s = (case step s of Inl r \<Rightarrow> Some r | Inr s' \<Rightarrow> loop step s')"

text \<open>The same loop, together with the state in which its last iteration started.\<close>

partial_function (option) loop_final ::
  "('s \<Rightarrow> outcome + 's) \<Rightarrow> 's \<Rightarrow> (outcome \<times> 's) option" where
  "loop_final step s = (case step s of Inl r \<Rightarrow> Some (r, s) | Inr s' \<Rightarrow> loop_final step s')"

fun run :: "('s \<Rightarrow> outcome + 's) \<Rightarrow> nat \<Rightarrow> 's \<Rightarrow> outcome + 's" where
  "run step 0 s = Inr s"
| "run step (Suc k) s = (case step s of Inl r \<Rightarrow> Inl r | Inr s' \<Rightarrow> run step k s')"

section \<open>wordcode.c: dispatch by a switch\<close>

text \<open>\<^verbatim>\<open>enum opcode { LIT, LOAD, CALL, PRIM, JT, JMP, RET }\<close>\<close>

definition LIT :: word_t where "LIT = 0"
definition LOAD :: word_t where "LOAD = 1"
definition CALL :: word_t where "CALL = 2"
definition PRIM :: word_t where "PRIM = 3"
definition JT :: word_t where "JT = 4"
definition JMP :: word_t where "JMP = 5"
definition RET :: word_t where "RET = 6"

text \<open>\<^verbatim>\<open>*(interp->ip)++\<close>\<close>

definition fetch :: "word_t list \<Rightarrow> interpreter \<Rightarrow> outcome + (word_t \<times> interpreter)" where
  "fetch cs s =
     (if 0 \<le> ip s \<and> ip s < int (length cs)
      then Inr (cs ! nat (ip s), s\<lparr>ip := ip s + 1\<rparr>)
      else Inl (Undefined Code_Fetch))"

text \<open>\<^verbatim>\<open>*(interp->bp + 2 + index)\<close>, the index a \<^verbatim>\<open>size_t\<close>.\<close>

definition wc_local :: "word_t \<Rightarrow> interpreter \<Rightarrow> outcome + word_t" where
  "wc_local index s = load (bp s + 2 + uint index) s"

definition wc_push_frame :: "interpreter \<Rightarrow> outcome + interpreter" where
  "wc_push_frame s =
     (let old_bp = bp s; s = s\<lparr>bp := sp s\<rparr>
      in bnd (push (word_of_sp old_bp) s) (\<lambda>s. push (word_of_ip (ip s)) s))"

definition wc_pop_frame :: "interpreter \<Rightarrow> outcome + interpreter" where
  "wc_pop_frame s =
     (let s = s\<lparr>sp := bp s + 2\<rparr>
      in bnd (pop s) (\<lambda>(w, s). let s = s\<lparr>ip := ip_of_word w\<rparr>
      in bnd (pop s) (\<lambda>(w, s). Inr (s\<lparr>bp := sp_of_word w\<rparr>))))"

text \<open>
  One iteration of the loop of \<^verbatim>\<open>execute\<close>: fetch an opcode and switch on it. In \<^verbatim>\<open>CALL\<close>,
  \<^verbatim>\<open>fun = functions + word\<close> only forms the address; the function table is read by
  \<^verbatim>\<open>fun->code\<close>, after the pop and the pushes.
\<close>

definition wc_step :: "word_t program \<Rightarrow> interpreter \<Rightarrow> outcome + interpreter" where
  "wc_step P s =
     bnd (fetch (code P) s) (\<lambda>(opc, s).
       if opc = LIT then
         bnd (fetch (code P) s) (\<lambda>(word, s).
         bnd (lookup (literals P) word) (\<lambda>v. push v s))
       else if opc = LOAD then
         bnd (fetch (code P) s) (\<lambda>(word, s).
         bnd (wc_local word s) (\<lambda>v. push v s))
       else if opc = CALL then
         bnd (fetch (code P) s) (\<lambda>(fid, s).
         bnd (pop s) (\<lambda>(word, s).
         bnd (wc_push_frame s) (\<lambda>s.
         bnd (push word s) (\<lambda>s.
         bnd (lookup (functions_t P) fid) (\<lambda>fn. Inr (s\<lparr>ip := entry fn\<rparr>))))))
       else if opc = PRIM then
         bnd (fetch (code P) s) (\<lambda>(word, s).
         bnd (lookup prim_handlers word) (\<lambda>handler. handler s))
       else if opc = JT then
         bnd (fetch (code P) s) (\<lambda>(offset, s).
         bnd (pop s) (\<lambda>(word, s).
           if word \<noteq> 0 then Inr (s\<lparr>ip := ip s + sint offset - 2\<rparr>) else Inr s))
       else if opc = JMP then
         bnd (fetch (code P) s) (\<lambda>(offset, s). Inr (s\<lparr>ip := ip s + sint offset - 2\<rparr>))
       else if opc = RET then
         bnd (pop s) (\<lambda>(word, s).
         bnd (wc_pop_frame s) (\<lambda>s.
           if ip s = NULL then Inl (Return word) else push word s))
       else Inl Abort)"

definition wc_execute :: "word_t program \<Rightarrow> interpreter \<Rightarrow> outcome option" where
  "wc_execute P s = loop (wc_step P) s"

definition wc_fib_code :: "word_t list" where
  "wc_fib_code =
    [LOAD, 0,
     LIT, 0,
     PRIM, 0,
     JT, 22,
     LOAD, 0,
     LIT, 1,
     PRIM, 1,
     CALL, 0,
     LOAD, 0,
     LIT, 0,
     PRIM, 1,
     CALL, 0,
     PRIM, 2,
     JMP, 4,
     LIT, 1,
     RET]"

definition wc_program :: "word_t program" where
  "wc_program = \<lparr>code = wc_fib_code, literals = [2, 1],
                 functions_t = [\<lparr>frame_size = 1, entry = 0\<rparr>]\<rparr>"

text \<open>
  \<^verbatim>\<open>main\<close>: the interpreter struct is initialised with \<open>bp = sp = stack\<close> and
  \<open>ip = functions[0].code\<close>; the words 0 (no previous \<open>bp\<close>), 0 (no previous \<open>ip\<close>) and
  the argument are pushed; then \<^verbatim>\<open>execute\<close> runs. The static stack array is all
  zero when \<^verbatim>\<open>main\<close> starts. \<open>wc_start\<close> does the same for any program and any
  content of the array.
\<close>

definition wc_init :: "word_t program \<Rightarrow> (int \<Rightarrow> word_t) \<Rightarrow> word_t \<Rightarrow> outcome + interpreter" where
  "wc_init P stk arg =
     bnd (lookup (functions_t P) 0) (\<lambda>fn.
     bnd (push 0 \<lparr>ip = entry fn, sp = 0, bp = 0, stack = stk\<rparr>) (\<lambda>s.
     bnd (push 0 s) (\<lambda>s. push arg s)))"

definition wc_start :: "word_t program \<Rightarrow> (int \<Rightarrow> word_t) \<Rightarrow> word_t \<Rightarrow> outcome option" where
  "wc_start P stk arg =
     (case wc_init P stk arg of Inl r \<Rightarrow> Some r | Inr s \<Rightarrow> wc_execute P s)"

definition wc_main :: "word_t \<Rightarrow> outcome option" where
  "wc_main arg = wc_start wc_program (\<lambda>_. 0) arg"

section \<open>Threaded code\<close>

text \<open>
  In the other variants the code vector holds, in place of an opcode, the address of
  the code that executes it: a handler function in handlercode2.c
  (\<^verbatim>\<open>#define LIT ((word_t) execute_lit)\<close>), a label of \<^verbatim>\<open>execute\<close> in the
  direct-threaded variants (\<^verbatim>\<open>#define OP(c) ((word_t) &&c)\<close>). The addresses are the
  linker's choice; a cell of such a code vector is either the address of a handler,
  \<open>OP h\<close>, or a plain word, \<open>W w\<close>. Jumping through a plain word and using a
  handler address as an operand have no defined result here.
\<close>

datatype 'h cell = OP 'h | W word_t

text \<open>\<^verbatim>\<open>*ip++\<close> read as an operand, and read as the address to continue at.\<close>

definition FETCH :: "'h cell list \<Rightarrow> interpreter \<Rightarrow> outcome + (word_t \<times> interpreter)" where
  "FETCH cs s =
     (if 0 \<le> ip s \<and> ip s < int (length cs)
      then (case cs ! nat (ip s) of
              W w \<Rightarrow> Inr (w, s\<lparr>ip := ip s + 1\<rparr>)
            | OP h \<Rightarrow> Inl (Undefined Handler_Value))
      else Inl (Undefined Code_Fetch))"

definition GOTO_NEXT :: "'h cell list \<Rightarrow> interpreter \<Rightarrow> outcome + ('h \<times> interpreter)" where
  "GOTO_NEXT cs s =
     (if 0 \<le> ip s \<and> ip s < int (length cs)
      then (case cs ! nat (ip s) of
              OP h \<Rightarrow> Inr (h, s\<lparr>ip := ip s + 1\<rparr>)
            | W w \<Rightarrow> Inl (Undefined Wild_Jump))
      else Inl (Undefined Code_Fetch))"

section \<open>handlercode2.c: a handler function per instruction\<close>

datatype handler = execute_lit | execute_load | execute_call | execute_prim
  | execute_jt | execute_jmp | execute_ret

text \<open>\<^verbatim>\<open>*(interp->bp + 3 + index)\<close>\<close>

definition hc2_local :: "word_t \<Rightarrow> interpreter \<Rightarrow> outcome + word_t" where
  "hc2_local index s = load (bp s + 3 + uint index) s"

definition hc2_push_frame :: "interpreter \<Rightarrow> word_t \<Rightarrow> outcome + interpreter" where
  "hc2_push_frame s args_to_pop_later =
     (let old_bp = bp s; s = s\<lparr>bp := sp s\<rparr>
      in bnd (push (word_of_sp old_bp) s) (\<lambda>s.
         bnd (push (word_of_ip (ip s)) s) (\<lambda>s. push args_to_pop_later s)))"

definition hc2_pop_frame :: "interpreter \<Rightarrow> outcome + interpreter" where
  "hc2_pop_frame s =
     (let s = s\<lparr>sp := bp s + 3\<rparr>
      in bnd (pop s) (\<lambda>(args_to_pop, s).
         bnd (pop s) (\<lambda>(w, s). let s = s\<lparr>ip := ip_of_word w\<rparr>
      in bnd (pop s) (\<lambda>(w, s). let s = s\<lparr>bp := sp_of_word w\<rparr>
      in Inr (s\<lparr>sp := sp s - uint args_to_pop\<rparr>)))))"

definition hc2_execute_lit :: "handler cell program \<Rightarrow> interpreter \<Rightarrow> outcome + interpreter" where
  "hc2_execute_lit P s =
     bnd (FETCH (code P) s) (\<lambda>(word, s).
     bnd (lookup (literals P) word) (\<lambda>v. push v s))"

definition hc2_execute_load :: "handler cell program \<Rightarrow> interpreter \<Rightarrow> outcome + interpreter" where
  "hc2_execute_load P s =
     bnd (FETCH (code P) s) (\<lambda>(word, s).
     bnd (hc2_local word s) (\<lambda>v. push v s))"

definition hc2_execute_call :: "handler cell program \<Rightarrow> interpreter \<Rightarrow> outcome + interpreter" where
  "hc2_execute_call P s =
     bnd (FETCH (code P) s) (\<lambda>(fid, s).
     bnd (FETCH (code P) s) (\<lambda>(argc, s).
     let args = sp s - uint argc in
     bnd (hc2_push_frame s argc) (\<lambda>s.
     bnd (memcpy (sp s) args argc s) (\<lambda>s.
     bnd (lookup (functions_t P) fid) (\<lambda>fn.
     Inr (s\<lparr>sp := sp s + frame_size fn, ip := entry fn\<rparr>))))))"

definition hc2_execute_prim :: "handler cell program \<Rightarrow> interpreter \<Rightarrow> outcome + interpreter" where
  "hc2_execute_prim P s =
     bnd (FETCH (code P) s) (\<lambda>(word, s).
     bnd (lookup prim_handlers word) (\<lambda>handler. handler s))"

definition hc2_execute_jt :: "handler cell program \<Rightarrow> interpreter \<Rightarrow> outcome + interpreter" where
  "hc2_execute_jt P s =
     bnd (FETCH (code P) s) (\<lambda>(offset, s).
     bnd (pop s) (\<lambda>(word, s).
       if word \<noteq> 0 then Inr (s\<lparr>ip := ip s + sint offset - 2\<rparr>) else Inr s))"

definition hc2_execute_jmp :: "handler cell program \<Rightarrow> interpreter \<Rightarrow> outcome + interpreter" where
  "hc2_execute_jmp P s =
     bnd (FETCH (code P) s) (\<lambda>(offset, s). Inr (s\<lparr>ip := ip s + sint offset - 2\<rparr>))"

text \<open>
  \<^verbatim>\<open>execute_ret\<close> leaves the loop by \<^verbatim>\<open>longjmp\<close> with \<^verbatim>\<open>interp->result\<close> set;
  \<^verbatim>\<open>main\<close> reads the result after its \<^verbatim>\<open>setjmp\<close>. Here it is the outcome \<open>Return\<close>.
\<close>

definition hc2_execute_ret :: "handler cell program \<Rightarrow> interpreter \<Rightarrow> outcome + interpreter" where
  "hc2_execute_ret P s =
     bnd (pop s) (\<lambda>(result, s).
     bnd (hc2_pop_frame s) (\<lambda>s.
       if ip s = NULL then Inl (Return result) else push result s))"

definition hc2_call_handler :: "handler \<Rightarrow> handler cell program \<Rightarrow> interpreter \<Rightarrow> outcome + interpreter" where
  "hc2_call_handler h =
     (case h of execute_lit \<Rightarrow> hc2_execute_lit | execute_load \<Rightarrow> hc2_execute_load
      | execute_call \<Rightarrow> hc2_execute_call | execute_prim \<Rightarrow> hc2_execute_prim
      | execute_jt \<Rightarrow> hc2_execute_jt | execute_jmp \<Rightarrow> hc2_execute_jmp
      | execute_ret \<Rightarrow> hc2_execute_ret)"

text \<open>\<^verbatim>\<open>handler = (instr_handler_t) fetch(interp); handler(interp);\<close>\<close>

definition hc2_step :: "handler cell program \<Rightarrow> interpreter \<Rightarrow> outcome + interpreter" where
  "hc2_step P s = bnd (GOTO_NEXT (code P) s) (\<lambda>(handler, s). hc2_call_handler handler P s)"

definition hc2_execute :: "handler cell program \<Rightarrow> interpreter \<Rightarrow> outcome option" where
  "hc2_execute P s = loop (hc2_step P) s"

definition hc2_fib_code :: "handler cell list" where
  "hc2_fib_code =
    [OP execute_load, W 0,
     OP execute_lit, W 0,
     OP execute_prim, W 0,
     OP execute_jt, W 24,
     OP execute_load, W 0,
     OP execute_lit, W 1,
     OP execute_prim, W 1,
     OP execute_call, W 0, W 1,
     OP execute_load, W 0,
     OP execute_lit, W 0,
     OP execute_prim, W 1,
     OP execute_call, W 0, W 1,
     OP execute_prim, W 2,
     OP execute_jmp, W 4,
     OP execute_lit, W 1,
     OP execute_ret]"

definition hc2_program :: "handler cell program" where
  "hc2_program = \<lparr>code = hc2_fib_code, literals = [2, 1],
                  functions_t = [\<lparr>frame_size = 1, entry = 0\<rparr>]\<rparr>"

text \<open>\<^verbatim>\<open>main\<close> pushes 0 (no previous \<open>bp\<close>), 0 (no previous \<open>ip\<close>), 0 (no arguments to pop)
  and the argument.\<close>

definition hc2_init :: "handler cell program \<Rightarrow> (int \<Rightarrow> word_t) \<Rightarrow> word_t \<Rightarrow> outcome + interpreter" where
  "hc2_init P stk arg =
     bnd (lookup (functions_t P) 0) (\<lambda>fn.
     bnd (push 0 \<lparr>ip = entry fn, sp = 0, bp = 0, stack = stk\<rparr>) (\<lambda>s.
     bnd (push 0 s) (\<lambda>s. bnd (push 0 s) (\<lambda>s. push arg s))))"

definition hc2_start :: "handler cell program \<Rightarrow> (int \<Rightarrow> word_t) \<Rightarrow> word_t \<Rightarrow> outcome option" where
  "hc2_start P stk arg =
     (case hc2_init P stk arg of Inl r \<Rightarrow> Some r | Inr s \<Rightarrow> hc2_execute P s)"

definition hc2_main :: "word_t \<Rightarrow> outcome option" where
  "hc2_main arg = hc2_start hc2_program (\<lambda>_. 0) arg"

section \<open>The direct-threaded variants\<close>

text \<open>
  The labels of the \<^verbatim>\<open>execute\<close> functions of directthreaded2.c, directthreaded3.c,
  directthreaded4.c and comboinstructions.c, taken together. A variant that does not
  have a label cannot be given code that names it; the model treats such a cell
  like a plain word.
\<close>

datatype label = L_LIT | L_CONST_0 | L_CONST_1 | L_CONST_2 | L_SUB1 | L_LOAD | L_CALL
  | L_PRIM | L_JT | L_JMP | L_RET | L_PRIM_LESS_THAN | L_PRIM_SUBTRACT | L_PRIM_ADD

subsection \<open>directthreaded2.c\<close>

text \<open>The code at each label up to its \<^verbatim>\<open>GOTO_NEXT\<close> (or \<^verbatim>\<open>return\<close>).\<close>

definition dt2_CALL :: "label cell program \<Rightarrow> interpreter \<Rightarrow> outcome + interpreter" where
  "dt2_CALL P s =
     bnd (FETCH (code P) s) (\<lambda>(fid, s).
     bnd (FETCH (code P) s) (\<lambda>(word, s).
     let words = sp s - uint word; words2 = bp s; s = s\<lparr>bp := sp s\<rparr> in
     bnd (push (word_of_sp words2) s) (\<lambda>s.
     bnd (push (word_of_ip (ip s)) s) (\<lambda>s.
     bnd (push word s) (\<lambda>s.
     bnd (memcpy (sp s) words word s) (\<lambda>s.
     bnd (lookup (functions_t P) fid) (\<lambda>fn.
     Inr (s\<lparr>sp := sp s + frame_size fn, ip := entry fn\<rparr>))))))))"

definition dt_RET :: "interpreter \<Rightarrow> outcome + interpreter" where
  "dt_RET s =
     bnd (pop s) (\<lambda>(word, s).
     let s = s\<lparr>sp := bp s + 3\<rparr> in
     bnd (pop s) (\<lambda>(word2, s).
     bnd (pop s) (\<lambda>(w, s). let s = s\<lparr>ip := ip_of_word w\<rparr> in
     bnd (pop s) (\<lambda>(w, s). let s = s\<lparr>bp := sp_of_word w\<rparr> in
     let s = s\<lparr>sp := sp s - uint word2\<rparr> in
     if ip s = NULL then Inl (Return word) else push word s))))"

definition dt_JT :: "'h cell list \<Rightarrow> interpreter \<Rightarrow> outcome + interpreter" where
  "dt_JT cs s =
     bnd (FETCH cs s) (\<lambda>(offset, s).
     bnd (pop s) (\<lambda>(word, s).
       if word \<noteq> 0 then Inr (s\<lparr>ip := ip s + sint offset - 2\<rparr>) else Inr s))"

definition dt_JMP :: "'h cell list \<Rightarrow> interpreter \<Rightarrow> outcome + interpreter" where
  "dt_JMP cs s =
     bnd (FETCH cs s) (\<lambda>(offset, s). Inr (s\<lparr>ip := ip s + sint offset - 2\<rparr>))"

definition dt_LIT :: "label cell program \<Rightarrow> interpreter \<Rightarrow> outcome + interpreter" where
  "dt_LIT P s =
     bnd (FETCH (code P) s) (\<lambda>(word, s).
     bnd (lookup (literals P) word) (\<lambda>v. push v s))"

definition dt_PRIM :: "label cell program \<Rightarrow> interpreter \<Rightarrow> outcome + interpreter" where
  "dt_PRIM P s =
     bnd (FETCH (code P) s) (\<lambda>(word, s).
     bnd (lookup prim_handlers word) (\<lambda>handler. handler s))"

definition dt2_goto :: "label cell program \<Rightarrow> label \<Rightarrow> interpreter \<Rightarrow> outcome + interpreter" where
  "dt2_goto P l s =
     (case l of
        L_LIT \<Rightarrow> dt_LIT P s
      | L_LOAD \<Rightarrow>
          bnd (FETCH (code P) s) (\<lambda>(word, s).
          bnd (load (bp s + 3 + uint word) s) (\<lambda>v. push v s))
      | L_CALL \<Rightarrow> dt2_CALL P s
      | L_PRIM \<Rightarrow> dt_PRIM P s
      | L_JT \<Rightarrow> dt_JT (code P) s
      | L_JMP \<Rightarrow> dt_JMP (code P) s
      | L_RET \<Rightarrow> dt_RET s
      | _ \<Rightarrow> Inl (Undefined Wild_Jump))"

definition dt2_step :: "label cell program \<Rightarrow> interpreter \<Rightarrow> outcome + interpreter" where
  "dt2_step P s = bnd (GOTO_NEXT (code P) s) (\<lambda>(l, s). dt2_goto P l s)"

definition dt2_fib_code :: "label cell list" where
  "dt2_fib_code =
    [OP L_LOAD, W 0,
     OP L_LIT, W 0,
     OP L_PRIM, W 0,
     OP L_JT, W 24,
     OP L_LOAD, W 0,
     OP L_LIT, W 1,
     OP L_PRIM, W 1,
     OP L_CALL, W 0, W 1,
     OP L_LOAD, W 0,
     OP L_LIT, W 0,
     OP L_PRIM, W 1,
     OP L_CALL, W 0, W 1,
     OP L_PRIM, W 2,
     OP L_JMP, W 4,
     OP L_LIT, W 1,
     OP L_RET]"

definition dt2_program :: "label cell program" where
  "dt2_program = \<lparr>code = dt2_fib_code, literals = [2, 1],
                  functions_t = [\<lparr>frame_size = 1, entry = 0\<rparr>]\<rparr>"

text \<open>
  \<^verbatim>\<open>execute(arg)\<close>: \<open>ip = fib_code\<close>, \<open>sp = bp = stack\<close>, then \<^verbatim>\<open>PUSH(0); PUSH(0);
  PUSH(0); PUSH(arg); GOTO_NEXT\<close>. The stack array is static: \<open>stk\<close> is what earlier
  calls of \<^verbatim>\<open>execute\<close> in the same process have left in it. \<open>dt2_start\<close> does the same
  for any program.
\<close>

definition dt2_init :: "label cell program \<Rightarrow> (int \<Rightarrow> word_t) \<Rightarrow> word_t \<Rightarrow> outcome + interpreter" where
  "dt2_init P stk arg =
     bnd (lookup (functions_t P) 0) (\<lambda>fn.
     bnd (push 0 \<lparr>ip = entry fn, sp = 0, bp = 0, stack = stk\<rparr>) (\<lambda>s.
     bnd (push 0 s) (\<lambda>s. bnd (push 0 s) (\<lambda>s. push arg s))))"

definition dt2_start :: "label cell program \<Rightarrow> (int \<Rightarrow> word_t) \<Rightarrow> word_t \<Rightarrow> outcome option" where
  "dt2_start P stk arg =
     (case dt2_init P stk arg of Inl r \<Rightarrow> Some r | Inr s \<Rightarrow> loop (dt2_step P) s)"

definition dt2_execute :: "(int \<Rightarrow> word_t) \<Rightarrow> word_t \<Rightarrow> outcome option" where
  "dt2_execute stk arg = dt2_start dt2_program stk arg"

text \<open>
  \<^verbatim>\<open>ip\<close>, \<^verbatim>\<open>sp\<close> and \<^verbatim>\<open>bp\<close> are locals of \<^verbatim>\<open>execute\<close>, and \<^verbatim>\<open>fib_code\<close>, \<^verbatim>\<open>functions\<close>,
  \<^verbatim>\<open>literals\<close> and \<^verbatim>\<open>prim_handlers\<close> are never written: the static array \<^verbatim>\<open>stack\<close> is
  the only object a call writes that the next call finds. \<open>dt2_call\<close> is \<^verbatim>\<open>execute\<close>
  together with the content it leaves in that array. The code at \<^verbatim>\<open>RET\<close>, where the
  \<^verbatim>\<open>return\<close> is, only pops, so the array at the return is the array at the start of
  that \<^verbatim>\<open>RET\<close>.
\<close>

definition dt2_call :: "(int \<Rightarrow> word_t) \<Rightarrow> word_t \<Rightarrow> (outcome \<times> (int \<Rightarrow> word_t)) option" where
  "dt2_call stk arg =
     (case dt2_init dt2_program stk arg of
        Inl r \<Rightarrow> Some (r, stk)
      | Inr s \<Rightarrow> map_option (\<lambda>(r, s'). (r, stack s')) (loop_final (dt2_step dt2_program) s))"

text \<open>
  Two calls in one process, \<^verbatim>\<open>execute(a); execute(b)\<close>, and the outcome of the second.
  A first call that makes an access outside the stack array or a table has undefined
  behaviour, and with it the rest of the process: there is no second call to speak of.
\<close>

definition dt2_execute_after :: "(int \<Rightarrow> word_t) \<Rightarrow> word_t \<Rightarrow> word_t \<Rightarrow> outcome option" where
  "dt2_execute_after stk a b =
     (case dt2_call stk a of
        None \<Rightarrow> None
      | Some (r, stk') \<Rightarrow> (case r of Return v \<Rightarrow> dt2_execute stk' b | _ \<Rightarrow> Some r))"

subsection \<open>directthreaded3.c\<close>

text \<open>
  The arguments are not copied into the callee frame; \<^verbatim>\<open>LOAD\<close> takes a signed offset
  relative to \<open>bp\<close>.
\<close>

definition dt3_LOAD :: "label cell program \<Rightarrow> interpreter \<Rightarrow> outcome + interpreter" where
  "dt3_LOAD P s =
     bnd (FETCH (code P) s) (\<lambda>(offset, s).
     bnd (load (bp s + sint offset) s) (\<lambda>v. push v s))"

definition dt3_CALL :: "label cell program \<Rightarrow> interpreter \<Rightarrow> outcome + interpreter" where
  "dt3_CALL P s =
     bnd (FETCH (code P) s) (\<lambda>(fid, s).
     bnd (FETCH (code P) s) (\<lambda>(word, s).
     let words = sp s - uint word; words2 = bp s; s = s\<lparr>bp := sp s\<rparr> in
     bnd (push (word_of_sp words2) s) (\<lambda>s.
     bnd (push (word_of_ip (ip s)) s) (\<lambda>s.
     bnd (push word s) (\<lambda>s.
     bnd (lookup (functions_t P) fid) (\<lambda>fn.
     Inr (s\<lparr>sp := sp s + frame_size fn, ip := entry fn\<rparr>)))))))"

definition dt3_goto :: "label cell program \<Rightarrow> label \<Rightarrow> interpreter \<Rightarrow> outcome + interpreter" where
  "dt3_goto P l s =
     (case l of
        L_LIT \<Rightarrow> dt_LIT P s
      | L_LOAD \<Rightarrow> dt3_LOAD P s
      | L_CALL \<Rightarrow> dt3_CALL P s
      | L_PRIM \<Rightarrow> dt_PRIM P s
      | L_JT \<Rightarrow> dt_JT (code P) s
      | L_JMP \<Rightarrow> dt_JMP (code P) s
      | L_RET \<Rightarrow> dt_RET s
      | _ \<Rightarrow> Inl (Undefined Wild_Jump))"

definition dt3_step :: "label cell program \<Rightarrow> interpreter \<Rightarrow> outcome + interpreter" where
  "dt3_step P s = bnd (GOTO_NEXT (code P) s) (\<lambda>(l, s). dt3_goto P l s)"

definition dt3_fib_code :: "label cell list" where
  "dt3_fib_code =
    [OP L_LOAD, W (- 1),
     OP L_LIT, W 0,
     OP L_PRIM, W 0,
     OP L_JT, W 24,
     OP L_LOAD, W (- 1),
     OP L_LIT, W 1,
     OP L_PRIM, W 1,
     OP L_CALL, W 0, W 1,
     OP L_LOAD, W (- 1),
     OP L_LIT, W 0,
     OP L_PRIM, W 1,
     OP L_CALL, W 0, W 1,
     OP L_PRIM, W 2,
     OP L_JMP, W 4,
     OP L_LIT, W 1,
     OP L_RET]"

definition dt3_program :: "label cell program" where
  "dt3_program = \<lparr>code = dt3_fib_code, literals = [2, 1],
                  functions_t = [\<lparr>frame_size = 0, entry = 0\<rparr>]\<rparr>"

text \<open>
  \<^verbatim>\<open>execute(arg)\<close>: \<open>ip = fib_code\<close>, \<open>sp = stack\<close>, \<open>bp = stack + 1\<close>, then
  \<^verbatim>\<open>PUSH(arg); PUSH(0); PUSH(0); PUSH(0); GOTO_NEXT\<close>. \<open>dt3_start\<close> does the same for
  any program.
\<close>

definition dt3_init :: "label cell program \<Rightarrow> (int \<Rightarrow> word_t) \<Rightarrow> word_t \<Rightarrow> outcome + interpreter" where
  "dt3_init P stk arg =
     bnd (lookup (functions_t P) 0) (\<lambda>fn.
     bnd (push arg \<lparr>ip = entry fn, sp = 0, bp = 1, stack = stk\<rparr>) (\<lambda>s.
     bnd (push 0 s) (\<lambda>s. bnd (push 0 s) (\<lambda>s. push 0 s))))"

definition dt3_start :: "label cell program \<Rightarrow> (int \<Rightarrow> word_t) \<Rightarrow> word_t \<Rightarrow> outcome option" where
  "dt3_start P stk arg =
     (case dt3_init P stk arg of Inl r \<Rightarrow> Some r | Inr s \<Rightarrow> loop (dt3_step P) s)"

definition dt3_execute :: "(int \<Rightarrow> word_t) \<Rightarrow> word_t \<Rightarrow> outcome option" where
  "dt3_execute stk arg = dt3_start dt3_program stk arg"

subsection \<open>directthreaded4.c\<close>










subsection \<open>comboinstructions.c\<close>









section \<open>The reference function\<close>

text \<open>The spec's \<open>f(n) = 1 if n < 2 else f(n-1) + f(n-2)\<close>, and its value as a word.\<close>

function fib_spec :: "int \<Rightarrow> int" where
  "fib_spec n = (if n < 2 then 1 else fib_spec (n - 1) + fib_spec (n - 2))"
  by pat_completeness auto
termination
  by (relation "measure nat") auto

declare fib_spec.simps [simp del]

definition fibw :: "word_t \<Rightarrow> word_t" where
  "fibw n = word_of_int (fib_spec (sint n))"

text \<open>Runs of a dispatch loop: reaching a state, and leaving the loop with an outcome.\<close>

definition reaches :: "('s \<Rightarrow> outcome + 's) \<Rightarrow> 's \<Rightarrow> 's \<Rightarrow> bool" where
  "reaches step s s' = (\<exists>k. run step k s = Inr s')"

definition halts :: "('s \<Rightarrow> outcome + 's) \<Rightarrow> 's \<Rightarrow> outcome \<Rightarrow> bool" where
  "halts step s r = (\<exists>k. run step k s = Inl r)"

section \<open>Stack demand of the Fibonacci programs\<close>

definition wc_need :: "word_t \<Rightarrow> int" where
  "wc_need n = (if sint n < 2 then 2 else 3 * sint n)"

definition hc2_need :: "word_t \<Rightarrow> int" where
  "hc2_need n = (if sint n < 2 then 2 else 5 * sint n - 2)"

definition dt2_need :: "word_t \<Rightarrow> int" where
  "dt2_need n = (if sint n < 2 then 2 else 5 * sint n - 2)"

definition dt3_need :: "word_t \<Rightarrow> int" where
  "dt3_need n = (if sint n < 2 then 2 else 4 * sint n - 1)"




section \<open>Runs of a dispatch loop\<close>

lemma run_add:
  "run step (j + k) s = (case run step j s of Inl r \<Rightarrow> Inl r | Inr s' \<Rightarrow> run step k s')"
  by (induction j arbitrary: s) (auto split: sum.splits)

lemma run_later: "step s = Inr s1 \<Longrightarrow> run step k s1 = r \<Longrightarrow> run step (Suc k) s = r"
  by simp

lemma run_now: "step s = Inl r \<Longrightarrow> run step (Suc k) s = Inl r"
  by simp

lemma reaches_refl: "reaches step s s"
  unfolding reaches_def by (rule exI [of _ 0]) simp

lemma reaches_step: "step s = Inr s1 \<Longrightarrow> reaches step s1 s' \<Longrightarrow> reaches step s s'"
proof -
  assume a: "step s = Inr s1" and "reaches step s1 s'"
  then obtain k where "run step k s1 = Inr s'" unfolding reaches_def by blast
  with a have "run step (Suc k) s = Inr s'" by simp
  then show ?thesis unfolding reaches_def by blast
qed

lemma reaches_trans: "reaches step s s1 \<Longrightarrow> reaches step s1 s2 \<Longrightarrow> reaches step s s2"
proof -
  assume "reaches step s s1" "reaches step s1 s2"
  then obtain j k where "run step j s = Inr s1" "run step k s1 = Inr s2"
    unfolding reaches_def by blast
  then have "run step (j + k) s = Inr s2" by (simp add: run_add)
  then show ?thesis unfolding reaches_def by blast
qed

lemma halts_now: "step s = Inl r \<Longrightarrow> halts step s r"
  unfolding halts_def by (rule exI [of _ "Suc 0"]) simp

lemma reaches_halts: "reaches step s s1 \<Longrightarrow> halts step s1 r \<Longrightarrow> halts step s r"
proof -
  assume "reaches step s s1" "halts step s1 r"
  then obtain j k where "run step j s = Inr s1" "run step k s1 = Inl r"
    unfolding reaches_def halts_def by blast
  then have "run step (j + k) s = Inl r" by (simp add: run_add)
  then show ?thesis unfolding halts_def by blast
qed

lemma halts_later: "step s = Inr s1 \<Longrightarrow> halts step s1 r \<Longrightarrow> halts step s r"
  by (rule reaches_halts [OF reaches_step [OF _ reaches_refl]])

lemma loop_run_Inl: "run step k s = Inl r \<Longrightarrow> loop step s = Some r"
proof (induction k arbitrary: s)
  case 0
  then show ?case by simp
next
  case (Suc k)
  then show ?case by (subst loop.simps) (auto split: sum.splits)
qed

lemma halts_loop: "halts step s r \<Longrightarrow> loop step s = Some r"
  unfolding halts_def by (blast intro: loop_run_Inl)

lemma run_Inl_last:
  "run step k s = Inl r \<Longrightarrow> \<exists>j s'. run step j s = Inr s' \<and> step s' = Inl r"
proof (induction k arbitrary: s)
  case 0
  then show ?case by simp
next
  case (Suc k)
  show ?case
  proof (cases "step s")
    case (Inl r')
    with Suc.prems have "run step 0 s = Inr s \<and> step s = Inl r" by simp
    then show ?thesis by blast
  next
    case (Inr s1)
    with Suc.prems have "run step k s1 = Inl r" by simp
    then obtain j s' where "run step j s1 = Inr s'" "step s' = Inl r"
      using Suc.IH by blast
    with Inr have "run step (Suc j) s = Inr s' \<and> step s' = Inl r" by simp
    then show ?thesis by blast
  qed
qed

lemma halts_reaches: "halts step s r \<Longrightarrow> \<exists>s'. reaches step s s' \<and> step s' = Inl r"
  unfolding halts_def reaches_def by (blast dest: run_Inl_last)

lemma loop_final_run:
  "run step k s = Inr s' \<Longrightarrow> step s' = Inl r \<Longrightarrow> loop_final step s = Some (r, s')"
proof (induction k arbitrary: s)
  case 0
  then show ?case by (subst loop_final.simps) simp
next
  case (Suc k)
  then show ?case by (subst loop_final.simps) (auto split: sum.splits)
qed

lemma reaches_loop_final:
  "reaches step s s' \<Longrightarrow> step s' = Inl r \<Longrightarrow> loop_final step s = Some (r, s')"
  unfolding reaches_def by (blast intro: loop_final_run)

lemma halts_unique: "halts step s r \<Longrightarrow> halts step s r' \<Longrightarrow> r = r'"
  using halts_loop [of step s r] halts_loop [of step s r'] by simp

section \<open>Word arithmetic used by the Fibonacci programs\<close>

lemma sint_minus_small:
  fixes n k :: word_t
  assumes "sint k = j" "0 \<le> j" "j \<le> sint n"
  shows "sint (n - k) = sint n - j"
proof -
  have "sint n < 2 ^ 63" using sint_lt [of n] by simp
  with assms show ?thesis
    by (simp add: sint_word_diff signed_take_bit_int_eq_self)
qed

lemma sint_minus_1: "2 \<le> sint (n :: word_t) \<Longrightarrow> sint (n - 1) = sint n - 1"
  by (rule sint_minus_small) simp_all

lemma sint_minus_2: "2 \<le> sint (n :: word_t) \<Longrightarrow> sint (n - 2) = sint n - 2"
  by (rule sint_minus_small) simp_all

lemma fibw_small: "sint n < 2 \<Longrightarrow> fibw n = 1"
  by (simp add: fibw_def fib_spec.simps)

lemma fibw_rec: "2 \<le> sint n \<Longrightarrow> fibw n = fibw (n - 1) + fibw (n - 2)"
  by (subst fibw_def, subst fib_spec.simps) (simp add: fibw_def sint_minus_1 sint_minus_2)

lemma uint_sp: "0 \<le> b \<Longrightarrow> b \<le> 1024 \<Longrightarrow> uint (word_of_int b :: word_t) = b"
  by (simp add: uint_word_of_int take_bit_int_eq_self)

lemma ip_of_word_of_ip: "0 \<le> i + 1 \<Longrightarrow> i + 1 < 2 ^ 64 \<Longrightarrow> ip_of_word (word_of_ip i) = i"
  by (simp only: ip_of_word_def word_of_ip_def uint_word_of_int)
    (simp add: take_bit_int_eq_self)

lemma sp_of_word_of_sp: "0 \<le> p \<Longrightarrow> p < 2 ^ 64 \<Longrightarrow> sp_of_word (word_of_sp p) = p"
  by (simp only: sp_of_word_def word_of_sp_def uint_word_of_int)
    (simp add: take_bit_int_eq_self)

lemmas machine_defs = Let_def bnd_def push_def pop_def load_def store_def memcpy_def lookup_def
  prim_handlers_def lessThan_prim_def subtract_prim_def add_prim_def STACK_SIZE_def NULL_def
  word_of_sp_def sp_of_word_def word_of_ip_def ip_of_word_def

lemmas wc_defs = wc_step_def wc_program_def wc_fib_code_def fetch_def wc_local_def
  wc_push_frame_def wc_pop_frame_def LIT_def LOAD_def CALL_def PRIM_def JT_def JMP_def RET_def
  machine_defs

lemmas hc2_defs = hc2_step_def hc2_program_def hc2_fib_code_def FETCH_def GOTO_NEXT_def
  hc2_call_handler_def hc2_execute_lit_def hc2_execute_load_def hc2_execute_call_def
  hc2_execute_prim_def hc2_execute_jt_def hc2_execute_jmp_def hc2_execute_ret_def
  hc2_local_def hc2_push_frame_def hc2_pop_frame_def machine_defs

lemmas dt_defs = FETCH_def GOTO_NEXT_def dt_LIT_def dt_PRIM_def dt_JT_def dt_JMP_def dt_RET_def
  machine_defs

lemmas dt2_defs = dt2_step_def dt2_goto_def dt2_CALL_def dt2_program_def dt2_fib_code_def dt_defs

lemmas dt3_defs = dt3_step_def dt3_goto_def dt3_CALL_def dt3_LOAD_def dt3_program_def
  dt3_fib_code_def dt_defs




section \<open>The Fibonacci program of wordcode.c\<close>

lemma wc_fib_body:
  "ip s = 0 \<Longrightarrow> 0 \<le> bp s \<Longrightarrow> sp s = bp s + 3 \<Longrightarrow> stack s (bp s + 2) = n \<Longrightarrow>
   sp s + wc_need n \<le> 1024 \<Longrightarrow>
   \<exists>s'. reaches (wc_step wc_program) s s' \<and> ip s' = 30 \<and> bp s' = bp s \<and> sp s' = sp s + 1
          \<and> (\<forall>i. i \<le> sp s \<longrightarrow> stack s' i = ((stack s)(sp s := fibw n)) i)"
proof (induction "nat (sint n)" arbitrary: n s rule: less_induct)
  case less
  note s = \<open>ip s = 0\<close> \<open>0 \<le> bp s\<close> \<open>sp s = bp s + 3\<close> \<open>stack s (bp s + 2) = n\<close>
  note fits = \<open>sp s + wc_need n \<le> 1024\<close>
  show ?case
  proof (cases "sint n < 2")
    case True
    with fits have b5: "sp s + 2 \<le> 1024" by (simp add: wc_need_def)
    show ?thesis
      using s b5 True
      apply -
      apply (rule exI, rule conjI)
      apply (rule reaches_step, simp add: wc_defs)
      apply (rule reaches_step, simp add: wc_defs)
      apply (rule reaches_step, simp add: wc_defs)
      apply (rule reaches_step, simp add: wc_defs)
      apply (rule reaches_step, simp add: wc_defs)
      apply (rule reaches_refl)
      apply (simp add: fibw_small)
      done
  next
    case False
    then have n2: "2 \<le> sint n" by simp
    with fits have fit: "sp s + 3 * sint n \<le> 1024" by (simp add: wc_need_def)
    have "\<exists>s1. reaches (wc_step wc_program) s s1 \<and> ip s1 = 0 \<and> bp s1 = sp s \<and> sp s1 = sp s + 3
            \<and> (\<forall>i. i < sp s + 3 \<longrightarrow> stack s1 i = ((stack s)(sp s := word_of_sp (bp s), sp s + 1 := word_of_ip 16, sp s + 2 := n - 1)) i)"
      using s fit n2
      apply -
      apply (rule exI, rule conjI)
      apply (rule reaches_step, simp add: wc_defs)
      apply (rule reaches_step, simp add: wc_defs)
      apply (rule reaches_step, simp add: wc_defs)
      apply (rule reaches_step, simp add: wc_defs)
      apply (rule reaches_step, simp add: wc_defs)
      apply (rule reaches_step, simp add: wc_defs)
      apply (rule reaches_step, simp add: wc_defs)
      apply (rule reaches_step, simp add: wc_defs)
      apply (rule reaches_refl)
      apply (simp add: wc_defs)
      done
    then obtain s1 where s1: "reaches (wc_step wc_program) s s1" "ip s1 = 0" "bp s1 = sp s"
      "sp s1 = sp s + 3"
      "\<forall>i. i < sp s + 3 \<longrightarrow> stack s1 i = ((stack s)(sp s := word_of_sp (bp s), sp s + 1 := word_of_ip 16, sp s + 2 := n - 1)) i"
      by blast
    have m1: "nat (sint (n - 1)) < nat (sint n)" using n2 by (simp add: sint_minus_1)
    have f1: "sp s1 + wc_need (n - 1) \<le> 1024"
      using n2 fit s1(4) by (simp add: wc_need_def sint_minus_1)
    have "\<exists>s2. reaches (wc_step wc_program) s1 s2 \<and> ip s2 = 30 \<and> bp s2 = bp s1 \<and> sp s2 = sp s1 + 1
          \<and> (\<forall>i. i \<le> sp s1 \<longrightarrow> stack s2 i = ((stack s1)(sp s1 := fibw (n - 1))) i)"
      using s s1 f1 by (intro less.hyps [OF m1]) simp_all
    then obtain s2 where s2: "reaches (wc_step wc_program) s1 s2" "ip s2 = 30" "bp s2 = bp s1"
      "sp s2 = sp s1 + 1"
      "\<forall>i. i \<le> sp s1 \<longrightarrow> stack s2 i = ((stack s1)(sp s1 := fibw (n - 1))) i" by blast
    have s2': "\<forall>i. i < sp s + 3 + 1 \<longrightarrow> stack s2 i = ((stack s)(sp s := word_of_sp (bp s), sp s + 1 := word_of_ip 16, sp s + 2 := n - 1, sp s + 3 := fibw (n - 1))) i"
      using s1(4,5) s2(5) by simp
    have "\<exists>s3. reaches (wc_step wc_program) s2 s3 \<and> ip s3 = 0 \<and> bp s3 = sp s + 1 \<and> sp s3 = sp s + 4
            \<and> (\<forall>i. i < sp s + 4 \<longrightarrow> stack s3 i = ((stack s)(sp s := fibw (n - 1), sp s + 1 := word_of_sp (bp s), sp s + 2 := word_of_ip 24, sp s + 3 := n - 2)) i)"
      using s(2-) fit n2 s1(3,4) s2(2,3,4) s2'
      apply -
      apply (rule exI, rule conjI)
      apply (rule reaches_step, simp add: wc_defs uint_sp)
      apply (rule reaches_step, simp add: wc_defs)
      apply (rule reaches_step, simp add: wc_defs)
      apply (rule reaches_step, simp add: wc_defs)
      apply (rule reaches_step, simp add: wc_defs)
      apply (rule reaches_refl)
      apply (simp add: wc_defs)
      done
    then obtain s3 where s3: "reaches (wc_step wc_program) s2 s3" "ip s3 = 0" "bp s3 = sp s + 1"
      "sp s3 = sp s + 4"
      "\<forall>i. i < sp s + 4 \<longrightarrow> stack s3 i = ((stack s)(sp s := fibw (n - 1), sp s + 1 := word_of_sp (bp s), sp s + 2 := word_of_ip 24, sp s + 3 := n - 2)) i"
      by blast
    have m2: "nat (sint (n - 2)) < nat (sint n)" using n2 by (simp add: sint_minus_2)
    have f2: "sp s3 + wc_need (n - 2) \<le> 1024"
      using n2 fit s3(4) by (simp add: wc_need_def sint_minus_2)
    have "\<exists>s4. reaches (wc_step wc_program) s3 s4 \<and> ip s4 = 30 \<and> bp s4 = bp s3 \<and> sp s4 = sp s3 + 1
          \<and> (\<forall>i. i \<le> sp s3 \<longrightarrow> stack s4 i = ((stack s3)(sp s3 := fibw (n - 2))) i)"
      using s s3 f2 by (intro less.hyps [OF m2]) simp_all
    then obtain s4 where s4: "reaches (wc_step wc_program) s3 s4" "ip s4 = 30" "bp s4 = bp s3"
      "sp s4 = sp s3 + 1"
      "\<forall>i. i \<le> sp s3 \<longrightarrow> stack s4 i = ((stack s3)(sp s3 := fibw (n - 2))) i" by blast
    have s4': "\<forall>i. i < sp s + 4 + 1 \<longrightarrow> stack s4 i = ((stack s)(sp s := fibw (n - 1), sp s + 1 := word_of_sp (bp s), sp s + 2 := word_of_ip 24, sp s + 3 := n - 2, sp s + 4 := fibw (n - 2))) i"
      using s3(4,5) s4(5) by simp
    have "\<exists>s5. reaches (wc_step wc_program) s4 s5 \<and> ip s5 = 30 \<and> bp s5 = bp s \<and> sp s5 = sp s + 1
            \<and> (\<forall>i. i \<le> sp s \<longrightarrow>
                  stack s5 i = ((stack s)(sp s := fibw (n - 1) + fibw (n - 2))) i)"
      using s(2-) fit n2 s3(3,4) s4(2,3,4) s4'
      apply -
      apply (rule exI, rule conjI)
      apply (rule reaches_step, simp add: wc_defs uint_sp)
      apply (rule reaches_step, simp add: wc_defs)
      apply (rule reaches_step, simp add: wc_defs)
      apply (rule reaches_refl)
      apply (simp add: wc_defs)
      done
    then obtain s5 where s5: "reaches (wc_step wc_program) s4 s5" "ip s5 = 30" "bp s5 = bp s"
      "sp s5 = sp s + 1"
      "\<forall>i. i \<le> sp s \<longrightarrow> stack s5 i = ((stack s)(sp s := fibw (n - 1) + fibw (n - 2))) i"
      by blast
    have "reaches (wc_step wc_program) s s5"
      using s1(1) s2(1) s3(1) s4(1) s5(1) by (blast intro: reaches_trans)
    with s5 n2 show ?thesis by (auto simp: fibw_rec)
  qed
qed

lemma wc_fib_overflow:
  "ip s = 0 \<Longrightarrow> 0 \<le> bp s \<Longrightarrow> sp s = bp s + 3 \<Longrightarrow> stack s (bp s + 2) = n \<Longrightarrow>
   sp s \<le> 1024 \<Longrightarrow> 1024 < sp s + wc_need n \<Longrightarrow>
   halts (wc_step wc_program) s (Undefined Stack_Store)"
proof (induction "nat (sint n)" arbitrary: n s rule: less_induct)
  case less
  note s = \<open>ip s = 0\<close> \<open>0 \<le> bp s\<close> \<open>sp s = bp s + 3\<close> \<open>stack s (bp s + 2) = n\<close>
  note top = \<open>sp s \<le> 1024\<close> and over = \<open>1024 < sp s + wc_need n\<close>
  show ?case
  proof (cases "1024 < sp s + 2")
    case True
    with top consider "sp s = 1024" | "sp s = 1023" by linarith
    then show ?thesis
    proof cases
      case 1
      with s show ?thesis
        by - (rule halts_now, simp add: wc_defs)
    next
      case 2
      with s show ?thesis
        by - (rule halts_later, simp add: wc_defs, rule halts_now, simp add: wc_defs)
    qed
  next
    case False
    then have b2: "sp s + 2 \<le> 1024" by simp
    with over have n2: "2 \<le> sint n" by (simp add: wc_need_def split: if_splits)
    with over have ov: "1024 < sp s + 3 * sint n" by (simp add: wc_need_def)
    show ?thesis
    proof (cases "1024 < sp s + 3")
      case True
      with s b2 n2 show ?thesis
        apply -
        apply (rule halts_later, simp add: wc_defs)
        apply (rule halts_later, simp add: wc_defs)
        apply (rule halts_later, simp add: wc_defs)
        apply (rule halts_later, simp add: wc_defs)
        apply (rule halts_later, simp add: wc_defs)
        apply (rule halts_later, simp add: wc_defs)
        apply (rule halts_later, simp add: wc_defs)
        apply (rule halts_now, simp add: wc_defs)
        done
    next
      case False
      then have fit: "sp s + 3 \<le> 1024" by simp
      have "\<exists>s1. reaches (wc_step wc_program) s s1 \<and> ip s1 = 0 \<and> bp s1 = sp s \<and> sp s1 = sp s + 3
              \<and> (\<forall>i. i < sp s + 3 \<longrightarrow> stack s1 i = ((stack s)(sp s := word_of_sp (bp s), sp s + 1 := word_of_ip 16, sp s + 2 := n - 1)) i)"
        using s fit n2
        apply -
        apply (rule exI, rule conjI)
        apply (rule reaches_step, simp add: wc_defs)
        apply (rule reaches_step, simp add: wc_defs)
        apply (rule reaches_step, simp add: wc_defs)
        apply (rule reaches_step, simp add: wc_defs)
        apply (rule reaches_step, simp add: wc_defs)
        apply (rule reaches_step, simp add: wc_defs)
        apply (rule reaches_step, simp add: wc_defs)
        apply (rule reaches_step, simp add: wc_defs)
        apply (rule reaches_refl)
        apply (simp add: wc_defs)
        done
      then obtain s1 where s1: "reaches (wc_step wc_program) s s1" "ip s1 = 0" "bp s1 = sp s"
        "sp s1 = sp s + 3"
        "\<forall>i. i < sp s + 3 \<longrightarrow> stack s1 i = ((stack s)(sp s := word_of_sp (bp s), sp s + 1 := word_of_ip 16, sp s + 2 := n - 1)) i"
        by blast
      have m1: "nat (sint (n - 1)) < nat (sint n)" using n2 by (simp add: sint_minus_1)
      have t1: "sp s1 \<le> 1024" using fit s1(4) by simp
      show ?thesis
      proof (cases "1024 < sp s1 + wc_need (n - 1)")
        case True
        have "halts (wc_step wc_program) s1 (Undefined Stack_Store)"
          using s s1 t1 True by (intro less.hyps [OF m1]) simp_all
        with s1(1) show ?thesis by (rule reaches_halts)
      next
        case False
        then have f1: "sp s1 + wc_need (n - 1) \<le> 1024" by simp
        then have fit3: "sp s + 4 \<le> 1024"
          using s1(4) by (simp add: wc_need_def split: if_splits)
        have "\<exists>s2. reaches (wc_step wc_program) s1 s2 \<and> ip s2 = 30 \<and> bp s2 = bp s1 \<and> sp s2 = sp s1 + 1
            \<and> (\<forall>i. i \<le> sp s1 \<longrightarrow> stack s2 i = ((stack s1)(sp s1 := fibw (n - 1))) i)"
          using s s1 f1 by (intro wc_fib_body) simp_all
        then obtain s2 where s2: "reaches (wc_step wc_program) s1 s2" "ip s2 = 30" "bp s2 = bp s1"
          "sp s2 = sp s1 + 1"
          "\<forall>i. i \<le> sp s1 \<longrightarrow> stack s2 i = ((stack s1)(sp s1 := fibw (n - 1))) i" by blast
        have s2': "\<forall>i. i < sp s + 3 + 1 \<longrightarrow> stack s2 i = ((stack s)(sp s := word_of_sp (bp s), sp s + 1 := word_of_ip 16, sp s + 2 := n - 1, sp s + 3 := fibw (n - 1))) i"
          using s1(4,5) s2(5) by simp
        have "\<exists>s3. reaches (wc_step wc_program) s2 s3 \<and> ip s3 = 0 \<and> bp s3 = sp s + 1 \<and> sp s3 = sp s + 4
                \<and> (\<forall>i. i < sp s + 4 \<longrightarrow> stack s3 i = ((stack s)(sp s := fibw (n - 1), sp s + 1 := word_of_sp (bp s), sp s + 2 := word_of_ip 24, sp s + 3 := n - 2)) i)"
          using s(2-) fit3 n2 s1(3,4) s2(2,3,4) s2'
          apply -
          apply (rule exI, rule conjI)
          apply (rule reaches_step, simp add: wc_defs uint_sp)
          apply (rule reaches_step, simp add: wc_defs)
          apply (rule reaches_step, simp add: wc_defs)
          apply (rule reaches_step, simp add: wc_defs)
          apply (rule reaches_step, simp add: wc_defs)
          apply (rule reaches_refl)
          apply (simp add: wc_defs)
          done
        then obtain s3 where s3: "reaches (wc_step wc_program) s2 s3" "ip s3 = 0" "bp s3 = sp s + 1"
          "sp s3 = sp s + 4"
          "\<forall>i. i < sp s + 4 \<longrightarrow> stack s3 i = ((stack s)(sp s := fibw (n - 1), sp s + 1 := word_of_sp (bp s), sp s + 2 := word_of_ip 24, sp s + 3 := n - 2)) i"
          by blast
        have m2: "nat (sint (n - 2)) < nat (sint n)" using n2 by (simp add: sint_minus_2)
        have t3: "sp s3 \<le> 1024" using fit3 s3(4) by simp
        have o3: "1024 < sp s3 + wc_need (n - 2)"
          using ov f1 n2 s1(4) s3(4)
          by (simp add: wc_need_def sint_minus_1 sint_minus_2 split: if_splits)
        have "halts (wc_step wc_program) s3 (Undefined Stack_Store)"
          using s s3 t3 o3 by (intro less.hyps [OF m2]) simp_all
        moreover have "reaches (wc_step wc_program) s s3"
          using s1(1) s2(1) s3(1) by (blast intro: reaches_trans)
        ultimately show ?thesis by (rule reaches_halts [rotated])
      qed
    qed
  qed
qed

lemma wc_init:
  "wc_init wc_program stk n = Inr \<lparr>ip = 0, sp = 3, bp = 0, stack = stk(0 := 0, 1 := 0, 2 := n)\<rparr>"
  by (simp add: wc_init_def wc_defs)

lemma wc_halts:
  assumes "wc_init wc_program stk n = Inr s0"
  shows "halts (wc_step wc_program) s0
           (if sint n \<le> 340 then Return (fibw n) else Undefined Stack_Store)"
proof -
  from assms have s0: "s0 = \<lparr>ip = 0, sp = 3, bp = 0, stack = stk(0 := 0, 1 := 0, 2 := n)\<rparr>"
    by (simp add: wc_init)
  have pre: "ip s0 = 0" "0 \<le> bp s0" "sp s0 = bp s0 + 3" "stack s0 (bp s0 + 2) = n"
    by (simp_all add: s0)
  show ?thesis
  proof (cases "sint n \<le> 340")
    case True
    then have "sp s0 + wc_need n \<le> 1024" by (simp add: wc_need_def s0)
    with pre have "\<exists>s'. reaches (wc_step wc_program) s0 s' \<and> ip s' = 30 \<and> bp s' = bp s0
        \<and> sp s' = sp s0 + 1
        \<and> (\<forall>i. i \<le> sp s0 \<longrightarrow> stack s' i = ((stack s0)(sp s0 := fibw n)) i)"
      by (intro wc_fib_body)
    then obtain s' where s': "reaches (wc_step wc_program) s0 s'" "ip s' = 30" "bp s' = 0"
      "sp s' = 3 + 1"
      "\<forall>i. i \<le> 3 \<longrightarrow> stack s' i = (stk(0 := 0, 1 := 0, 2 := n, 3 := fibw n)) i"
      by (auto simp: s0)
    have "wc_step wc_program s' = Inl (Return (fibw n))"
      using s'(2-) by (simp add: wc_defs)
    then have "halts (wc_step wc_program) s0 (Return (fibw n))"
      using s'(1) by (blast intro: reaches_halts halts_now)
    with True show ?thesis by simp
  next
    case False
    then have "1024 < sp s0 + wc_need n" by (simp add: wc_need_def s0)
    with pre have "halts (wc_step wc_program) s0 (Undefined Stack_Store)"
      by (intro wc_fib_overflow) (simp_all add: s0)
    with False show ?thesis by simp
  qed
qed

lemma wc_result:
  "wc_start wc_program stk n = Some (if sint n \<le> 340 then Return (fibw n) else Undefined Stack_Store)"
  using wc_halts [OF wc_init, of stk n, THEN halts_loop]
  by (simp add: wc_start_def wc_execute_def wc_init)

section \<open>The Fibonacci program of handlercode2.c\<close>

lemma hc2_fib_body:
  "ip s = 0 \<Longrightarrow> 0 \<le> bp s \<Longrightarrow> sp s = bp s + 4 \<Longrightarrow> stack s (bp s + 3) = n \<Longrightarrow>
   sp s + hc2_need n \<le> 1024 \<Longrightarrow>
   \<exists>s'. reaches (hc2_step hc2_program) s s' \<and> ip s' = 32 \<and> bp s' = bp s \<and> sp s' = sp s + 1
          \<and> (\<forall>i. i \<le> sp s \<longrightarrow> stack s' i = ((stack s)(sp s := fibw n)) i)"
proof (induction "nat (sint n)" arbitrary: n s rule: less_induct)
  case less
  note s = \<open>ip s = 0\<close> \<open>0 \<le> bp s\<close> \<open>sp s = bp s + 4\<close> \<open>stack s (bp s + 3) = n\<close>
  note fits = \<open>sp s + hc2_need n \<le> 1024\<close>
  show ?case
  proof (cases "sint n < 2")
    case True
    with fits have b5: "sp s + 2 \<le> 1024" by (simp add: hc2_need_def)
    show ?thesis
      using s b5 True
      apply -
      apply (rule exI, rule conjI)
      apply (rule reaches_step, simp add: hc2_defs)
      apply (rule reaches_step, simp add: hc2_defs)
      apply (rule reaches_step, simp add: hc2_defs)
      apply (rule reaches_step, simp add: hc2_defs)
      apply (rule reaches_step, simp add: hc2_defs)
      apply (rule reaches_refl)
      apply (simp add: fibw_small)
      done
  next
    case False
    then have n2: "2 \<le> sint n" by simp
    with fits have fit: "sp s + (5 * sint n - 2) \<le> 1024" by (simp add: hc2_need_def)
    have "\<exists>s1. reaches (hc2_step hc2_program) s s1 \<and> ip s1 = 0 \<and> bp s1 = sp s + 1 \<and> sp s1 = sp s + 5
            \<and> (\<forall>i. i < sp s + 5 \<longrightarrow> stack s1 i = ((stack s)(sp s := n - 1, sp s + 1 := word_of_sp (bp s), sp s + 2 := word_of_ip 17, sp s + 3 := 1, sp s + 4 := n - 1)) i)"
      using s fit n2
      apply -
      apply (rule exI, rule conjI)
      apply (rule reaches_step, simp add: hc2_defs)
      apply (rule reaches_step, simp add: hc2_defs)
      apply (rule reaches_step, simp add: hc2_defs)
      apply (rule reaches_step, simp add: hc2_defs)
      apply (rule reaches_step, simp add: hc2_defs)
      apply (rule reaches_step, simp add: hc2_defs)
      apply (rule reaches_step, simp add: hc2_defs)
      apply (rule reaches_step, simp add: hc2_defs)
      apply (rule reaches_refl)
      apply (simp add: hc2_defs)
      done
    then obtain s1 where s1: "reaches (hc2_step hc2_program) s s1" "ip s1 = 0" "bp s1 = sp s + 1"
      "sp s1 = sp s + 5"
      "\<forall>i. i < sp s + 5 \<longrightarrow> stack s1 i = ((stack s)(sp s := n - 1, sp s + 1 := word_of_sp (bp s), sp s + 2 := word_of_ip 17, sp s + 3 := 1, sp s + 4 := n - 1)) i"
      by blast
    have m1: "nat (sint (n - 1)) < nat (sint n)" using n2 by (simp add: sint_minus_1)
    have f1: "sp s1 + hc2_need (n - 1) \<le> 1024"
      using n2 fit s1(4) by (simp add: hc2_need_def sint_minus_1)
    have "\<exists>s2. reaches (hc2_step hc2_program) s1 s2 \<and> ip s2 = 32 \<and> bp s2 = bp s1 \<and> sp s2 = sp s1 + 1
          \<and> (\<forall>i. i \<le> sp s1 \<longrightarrow> stack s2 i = ((stack s1)(sp s1 := fibw (n - 1))) i)"
      using s s1 f1 by (intro less.hyps [OF m1]) simp_all
    then obtain s2 where s2: "reaches (hc2_step hc2_program) s1 s2" "ip s2 = 32" "bp s2 = bp s1"
      "sp s2 = sp s1 + 1"
      "\<forall>i. i \<le> sp s1 \<longrightarrow> stack s2 i = ((stack s1)(sp s1 := fibw (n - 1))) i" by blast
    have s2': "\<forall>i. i < sp s + 5 + 1 \<longrightarrow> stack s2 i = ((stack s)(sp s := n - 1, sp s + 1 := word_of_sp (bp s), sp s + 2 := word_of_ip 17, sp s + 3 := 1, sp s + 4 := n - 1, sp s + 5 := fibw (n - 1))) i"
      using s1(4,5) s2(5) by simp
    have "\<exists>s3. reaches (hc2_step hc2_program) s2 s3 \<and> ip s3 = 0 \<and> bp s3 = sp s + 2 \<and> sp s3 = sp s + 6
            \<and> (\<forall>i. i < sp s + 6 \<longrightarrow> stack s3 i = ((stack s)(sp s := fibw (n - 1), sp s + 1 := n - 2, sp s + 2 := word_of_sp (bp s), sp s + 3 := word_of_ip 26, sp s + 4 := 1, sp s + 5 := n - 2)) i)"
      using s(2-) fit n2 s1(3,4) s2(2,3,4) s2'
      apply -
      apply (rule exI, rule conjI)
      apply (rule reaches_step, simp add: hc2_defs uint_sp)
      apply (rule reaches_step, simp add: hc2_defs)
      apply (rule reaches_step, simp add: hc2_defs)
      apply (rule reaches_step, simp add: hc2_defs)
      apply (rule reaches_step, simp add: hc2_defs)
      apply (rule reaches_refl)
      apply (simp add: hc2_defs)
      done
    then obtain s3 where s3: "reaches (hc2_step hc2_program) s2 s3" "ip s3 = 0" "bp s3 = sp s + 2"
      "sp s3 = sp s + 6"
      "\<forall>i. i < sp s + 6 \<longrightarrow> stack s3 i = ((stack s)(sp s := fibw (n - 1), sp s + 1 := n - 2, sp s + 2 := word_of_sp (bp s), sp s + 3 := word_of_ip 26, sp s + 4 := 1, sp s + 5 := n - 2)) i"
      by blast
    have m2: "nat (sint (n - 2)) < nat (sint n)" using n2 by (simp add: sint_minus_2)
    have f2: "sp s3 + hc2_need (n - 2) \<le> 1024"
      using n2 fit s3(4) by (simp add: hc2_need_def sint_minus_2)
    have "\<exists>s4. reaches (hc2_step hc2_program) s3 s4 \<and> ip s4 = 32 \<and> bp s4 = bp s3 \<and> sp s4 = sp s3 + 1
          \<and> (\<forall>i. i \<le> sp s3 \<longrightarrow> stack s4 i = ((stack s3)(sp s3 := fibw (n - 2))) i)"
      using s s3 f2 by (intro less.hyps [OF m2]) simp_all
    then obtain s4 where s4: "reaches (hc2_step hc2_program) s3 s4" "ip s4 = 32" "bp s4 = bp s3"
      "sp s4 = sp s3 + 1"
      "\<forall>i. i \<le> sp s3 \<longrightarrow> stack s4 i = ((stack s3)(sp s3 := fibw (n - 2))) i" by blast
    have s4': "\<forall>i. i < sp s + 6 + 1 \<longrightarrow> stack s4 i = ((stack s)(sp s := fibw (n - 1), sp s + 1 := n - 2, sp s + 2 := word_of_sp (bp s), sp s + 3 := word_of_ip 26, sp s + 4 := 1, sp s + 5 := n - 2, sp s + 6 := fibw (n - 2))) i"
      using s3(4,5) s4(5) by simp
    have "\<exists>s5. reaches (hc2_step hc2_program) s4 s5 \<and> ip s5 = 32 \<and> bp s5 = bp s \<and> sp s5 = sp s + 1
            \<and> (\<forall>i. i \<le> sp s \<longrightarrow>
                  stack s5 i = ((stack s)(sp s := fibw (n - 1) + fibw (n - 2))) i)"
      using s(2-) fit n2 s3(3,4) s4(2,3,4) s4'
      apply -
      apply (rule exI, rule conjI)
      apply (rule reaches_step, simp add: hc2_defs uint_sp)
      apply (rule reaches_step, simp add: hc2_defs)
      apply (rule reaches_step, simp add: hc2_defs)
      apply (rule reaches_refl)
      apply (simp add: hc2_defs)
      done
    then obtain s5 where s5: "reaches (hc2_step hc2_program) s4 s5" "ip s5 = 32" "bp s5 = bp s"
      "sp s5 = sp s + 1"
      "\<forall>i. i \<le> sp s \<longrightarrow> stack s5 i = ((stack s)(sp s := fibw (n - 1) + fibw (n - 2))) i"
      by blast
    have "reaches (hc2_step hc2_program) s s5"
      using s1(1) s2(1) s3(1) s4(1) s5(1) by (blast intro: reaches_trans)
    with s5 n2 show ?thesis by (auto simp: fibw_rec)
  qed
qed

lemma hc2_fib_overflow:
  "ip s = 0 \<Longrightarrow> 0 \<le> bp s \<Longrightarrow> sp s = bp s + 4 \<Longrightarrow> stack s (bp s + 3) = n \<Longrightarrow>
   sp s \<le> 1024 \<Longrightarrow> 1024 < sp s + hc2_need n \<Longrightarrow>
   halts (hc2_step hc2_program) s (Undefined Stack_Store)"
proof (induction "nat (sint n)" arbitrary: n s rule: less_induct)
  case less
  note s = \<open>ip s = 0\<close> \<open>0 \<le> bp s\<close> \<open>sp s = bp s + 4\<close> \<open>stack s (bp s + 3) = n\<close>
  note top = \<open>sp s \<le> 1024\<close> and over = \<open>1024 < sp s + hc2_need n\<close>
  show ?case
  proof (cases "1024 < sp s + 2")
    case True
    with top consider "sp s = 1024" | "sp s = 1023" by linarith
    then show ?thesis
    proof cases
      case 1
      with s show ?thesis
        by - (rule halts_now, simp add: hc2_defs)
    next
      case 2
      with s show ?thesis
        by - (rule halts_later, simp add: hc2_defs, rule halts_now, simp add: hc2_defs)
    qed
  next
    case False
    then have b2: "sp s + 2 \<le> 1024" by simp
    with over have n2: "2 \<le> sint n" by (simp add: hc2_need_def split: if_splits)
    with over have ov: "1024 < sp s + (5 * sint n - 2)" by (simp add: hc2_need_def)
    show ?thesis
    proof (cases "1024 < sp s + 5")
      case True
      with s b2 n2 show ?thesis
        apply -
        apply (rule halts_later, simp add: hc2_defs)
        apply (rule halts_later, simp add: hc2_defs)
        apply (rule halts_later, simp add: hc2_defs)
        apply (rule halts_later, simp add: hc2_defs)
        apply (rule halts_later, simp add: hc2_defs)
        apply (rule halts_later, simp add: hc2_defs)
        apply (rule halts_later, simp add: hc2_defs)
        apply (rule halts_now, simp add: hc2_defs)
        done
    next
      case False
      then have fit: "sp s + 5 \<le> 1024" by simp
      have "\<exists>s1. reaches (hc2_step hc2_program) s s1 \<and> ip s1 = 0 \<and> bp s1 = sp s + 1 \<and> sp s1 = sp s + 5
              \<and> (\<forall>i. i < sp s + 5 \<longrightarrow> stack s1 i = ((stack s)(sp s := n - 1, sp s + 1 := word_of_sp (bp s), sp s + 2 := word_of_ip 17, sp s + 3 := 1, sp s + 4 := n - 1)) i)"
        using s fit n2
        apply -
        apply (rule exI, rule conjI)
        apply (rule reaches_step, simp add: hc2_defs)
        apply (rule reaches_step, simp add: hc2_defs)
        apply (rule reaches_step, simp add: hc2_defs)
        apply (rule reaches_step, simp add: hc2_defs)
        apply (rule reaches_step, simp add: hc2_defs)
        apply (rule reaches_step, simp add: hc2_defs)
        apply (rule reaches_step, simp add: hc2_defs)
        apply (rule reaches_step, simp add: hc2_defs)
        apply (rule reaches_refl)
        apply (simp add: hc2_defs)
        done
      then obtain s1 where s1: "reaches (hc2_step hc2_program) s s1" "ip s1 = 0" "bp s1 = sp s + 1"
        "sp s1 = sp s + 5"
        "\<forall>i. i < sp s + 5 \<longrightarrow> stack s1 i = ((stack s)(sp s := n - 1, sp s + 1 := word_of_sp (bp s), sp s + 2 := word_of_ip 17, sp s + 3 := 1, sp s + 4 := n - 1)) i"
        by blast
      have m1: "nat (sint (n - 1)) < nat (sint n)" using n2 by (simp add: sint_minus_1)
      have t1: "sp s1 \<le> 1024" using fit s1(4) by simp
      show ?thesis
      proof (cases "1024 < sp s1 + hc2_need (n - 1)")
        case True
        have "halts (hc2_step hc2_program) s1 (Undefined Stack_Store)"
          using s s1 t1 True by (intro less.hyps [OF m1]) simp_all
        with s1(1) show ?thesis by (rule reaches_halts)
      next
        case False
        then have f1: "sp s1 + hc2_need (n - 1) \<le> 1024" by simp
        then have fit3: "sp s + 6 \<le> 1024"
          using s1(4) by (simp add: hc2_need_def split: if_splits)
        have "\<exists>s2. reaches (hc2_step hc2_program) s1 s2 \<and> ip s2 = 32 \<and> bp s2 = bp s1 \<and> sp s2 = sp s1 + 1
            \<and> (\<forall>i. i \<le> sp s1 \<longrightarrow> stack s2 i = ((stack s1)(sp s1 := fibw (n - 1))) i)"
          using s s1 f1 by (intro hc2_fib_body) simp_all
        then obtain s2 where s2: "reaches (hc2_step hc2_program) s1 s2" "ip s2 = 32" "bp s2 = bp s1"
          "sp s2 = sp s1 + 1"
          "\<forall>i. i \<le> sp s1 \<longrightarrow> stack s2 i = ((stack s1)(sp s1 := fibw (n - 1))) i" by blast
        have s2': "\<forall>i. i < sp s + 5 + 1 \<longrightarrow> stack s2 i = ((stack s)(sp s := n - 1, sp s + 1 := word_of_sp (bp s), sp s + 2 := word_of_ip 17, sp s + 3 := 1, sp s + 4 := n - 1, sp s + 5 := fibw (n - 1))) i"
          using s1(4,5) s2(5) by simp
        have "\<exists>s3. reaches (hc2_step hc2_program) s2 s3 \<and> ip s3 = 0 \<and> bp s3 = sp s + 2 \<and> sp s3 = sp s + 6
                \<and> (\<forall>i. i < sp s + 6 \<longrightarrow> stack s3 i = ((stack s)(sp s := fibw (n - 1), sp s + 1 := n - 2, sp s + 2 := word_of_sp (bp s), sp s + 3 := word_of_ip 26, sp s + 4 := 1, sp s + 5 := n - 2)) i)"
          using s(2-) fit3 n2 s1(3,4) s2(2,3,4) s2'
          apply -
          apply (rule exI, rule conjI)
          apply (rule reaches_step, simp add: hc2_defs uint_sp)
          apply (rule reaches_step, simp add: hc2_defs)
          apply (rule reaches_step, simp add: hc2_defs)
          apply (rule reaches_step, simp add: hc2_defs)
          apply (rule reaches_step, simp add: hc2_defs)
          apply (rule reaches_refl)
          apply (simp add: hc2_defs)
          done
        then obtain s3 where s3: "reaches (hc2_step hc2_program) s2 s3" "ip s3 = 0" "bp s3 = sp s + 2"
          "sp s3 = sp s + 6"
          "\<forall>i. i < sp s + 6 \<longrightarrow> stack s3 i = ((stack s)(sp s := fibw (n - 1), sp s + 1 := n - 2, sp s + 2 := word_of_sp (bp s), sp s + 3 := word_of_ip 26, sp s + 4 := 1, sp s + 5 := n - 2)) i"
          by blast
        have m2: "nat (sint (n - 2)) < nat (sint n)" using n2 by (simp add: sint_minus_2)
        have t3: "sp s3 \<le> 1024" using fit3 s3(4) by simp
        have o3: "1024 < sp s3 + hc2_need (n - 2)"
          using ov f1 n2 s1(4) s3(4)
          by (simp add: hc2_need_def sint_minus_1 sint_minus_2 split: if_splits)
        have "halts (hc2_step hc2_program) s3 (Undefined Stack_Store)"
          using s s3 t3 o3 by (intro less.hyps [OF m2]) simp_all
        moreover have "reaches (hc2_step hc2_program) s s3"
          using s1(1) s2(1) s3(1) by (blast intro: reaches_trans)
        ultimately show ?thesis by (rule reaches_halts [rotated])
      qed
    qed
  qed
qed

lemma hc2_init:
  "hc2_init hc2_program stk n = Inr \<lparr>ip = 0, sp = 4, bp = 0, stack = stk(0 := 0, 1 := 0, 2 := 0, 3 := n)\<rparr>"
  by (simp add: hc2_init_def hc2_defs)

lemma hc2_halts:
  assumes "hc2_init hc2_program stk n = Inr s0"
  shows "halts (hc2_step hc2_program) s0
           (if sint n \<le> 204 then Return (fibw n) else Undefined Stack_Store)"
proof -
  from assms have s0: "s0 = \<lparr>ip = 0, sp = 4, bp = 0, stack = stk(0 := 0, 1 := 0, 2 := 0, 3 := n)\<rparr>"
    by (simp add: hc2_init)
  have pre: "ip s0 = 0" "0 \<le> bp s0" "sp s0 = bp s0 + 4" "stack s0 (bp s0 + 3) = n"
    by (simp_all add: s0)
  show ?thesis
  proof (cases "sint n \<le> 204")
    case True
    then have "sp s0 + hc2_need n \<le> 1024" by (simp add: hc2_need_def s0)
    with pre have "\<exists>s'. reaches (hc2_step hc2_program) s0 s' \<and> ip s' = 32 \<and> bp s' = bp s0
        \<and> sp s' = sp s0 + 1
        \<and> (\<forall>i. i \<le> sp s0 \<longrightarrow> stack s' i = ((stack s0)(sp s0 := fibw n)) i)"
      by (intro hc2_fib_body)
    then obtain s' where s': "reaches (hc2_step hc2_program) s0 s'" "ip s' = 32" "bp s' = 0"
      "sp s' = 4 + 1"
      "\<forall>i. i \<le> 4 \<longrightarrow> stack s' i = (stk(0 := 0, 1 := 0, 2 := 0, 3 := n, 4 := fibw n)) i"
      by (auto simp: s0)
    have "hc2_step hc2_program s' = Inl (Return (fibw n))"
      using s'(2-) by (simp add: hc2_defs)
    then have "halts (hc2_step hc2_program) s0 (Return (fibw n))"
      using s'(1) by (blast intro: reaches_halts halts_now)
    with True show ?thesis by simp
  next
    case False
    then have "1024 < sp s0 + hc2_need n" by (simp add: hc2_need_def s0)
    with pre have "halts (hc2_step hc2_program) s0 (Undefined Stack_Store)"
      by (intro hc2_fib_overflow) (simp_all add: s0)
    with False show ?thesis by simp
  qed
qed

lemma hc2_result:
  "hc2_start hc2_program stk n = Some (if sint n \<le> 204 then Return (fibw n) else Undefined Stack_Store)"
  using hc2_halts [OF hc2_init, of stk n, THEN halts_loop]
  by (simp add: hc2_start_def hc2_execute_def hc2_init)

section \<open>The Fibonacci program of directthreaded2.c\<close>

lemma dt2_fib_body:
  "ip s = 0 \<Longrightarrow> 0 \<le> bp s \<Longrightarrow> sp s = bp s + 4 \<Longrightarrow> stack s (bp s + 3) = n \<Longrightarrow>
   sp s + dt2_need n \<le> 1024 \<Longrightarrow>
   \<exists>s'. reaches (dt2_step dt2_program) s s' \<and> ip s' = 32 \<and> bp s' = bp s \<and> sp s' = sp s + 1
          \<and> (\<forall>i. i \<le> sp s \<longrightarrow> stack s' i = ((stack s)(sp s := fibw n)) i)"
proof (induction "nat (sint n)" arbitrary: n s rule: less_induct)
  case less
  note s = \<open>ip s = 0\<close> \<open>0 \<le> bp s\<close> \<open>sp s = bp s + 4\<close> \<open>stack s (bp s + 3) = n\<close>
  note fits = \<open>sp s + dt2_need n \<le> 1024\<close>
  show ?case
  proof (cases "sint n < 2")
    case True
    with fits have b5: "sp s + 2 \<le> 1024" by (simp add: dt2_need_def)
    show ?thesis
      using s b5 True
      apply -
      apply (rule exI, rule conjI)
      apply (rule reaches_step, simp add: dt2_defs)
      apply (rule reaches_step, simp add: dt2_defs)
      apply (rule reaches_step, simp add: dt2_defs)
      apply (rule reaches_step, simp add: dt2_defs)
      apply (rule reaches_step, simp add: dt2_defs)
      apply (rule reaches_refl)
      apply (simp add: fibw_small)
      done
  next
    case False
    then have n2: "2 \<le> sint n" by simp
    with fits have fit: "sp s + (5 * sint n - 2) \<le> 1024" by (simp add: dt2_need_def)
    have "\<exists>s1. reaches (dt2_step dt2_program) s s1 \<and> ip s1 = 0 \<and> bp s1 = sp s + 1 \<and> sp s1 = sp s + 5
            \<and> (\<forall>i. i < sp s + 5 \<longrightarrow> stack s1 i = ((stack s)(sp s := n - 1, sp s + 1 := word_of_sp (bp s), sp s + 2 := word_of_ip 17, sp s + 3 := 1, sp s + 4 := n - 1)) i)"
      using s fit n2
      apply -
      apply (rule exI, rule conjI)
      apply (rule reaches_step, simp add: dt2_defs)
      apply (rule reaches_step, simp add: dt2_defs)
      apply (rule reaches_step, simp add: dt2_defs)
      apply (rule reaches_step, simp add: dt2_defs)
      apply (rule reaches_step, simp add: dt2_defs)
      apply (rule reaches_step, simp add: dt2_defs)
      apply (rule reaches_step, simp add: dt2_defs)
      apply (rule reaches_step, simp add: dt2_defs)
      apply (rule reaches_refl)
      apply (simp add: dt2_defs)
      done
    then obtain s1 where s1: "reaches (dt2_step dt2_program) s s1" "ip s1 = 0" "bp s1 = sp s + 1"
      "sp s1 = sp s + 5"
      "\<forall>i. i < sp s + 5 \<longrightarrow> stack s1 i = ((stack s)(sp s := n - 1, sp s + 1 := word_of_sp (bp s), sp s + 2 := word_of_ip 17, sp s + 3 := 1, sp s + 4 := n - 1)) i"
      by blast
    have m1: "nat (sint (n - 1)) < nat (sint n)" using n2 by (simp add: sint_minus_1)
    have f1: "sp s1 + dt2_need (n - 1) \<le> 1024"
      using n2 fit s1(4) by (simp add: dt2_need_def sint_minus_1)
    have "\<exists>s2. reaches (dt2_step dt2_program) s1 s2 \<and> ip s2 = 32 \<and> bp s2 = bp s1 \<and> sp s2 = sp s1 + 1
          \<and> (\<forall>i. i \<le> sp s1 \<longrightarrow> stack s2 i = ((stack s1)(sp s1 := fibw (n - 1))) i)"
      using s s1 f1 by (intro less.hyps [OF m1]) simp_all
    then obtain s2 where s2: "reaches (dt2_step dt2_program) s1 s2" "ip s2 = 32" "bp s2 = bp s1"
      "sp s2 = sp s1 + 1"
      "\<forall>i. i \<le> sp s1 \<longrightarrow> stack s2 i = ((stack s1)(sp s1 := fibw (n - 1))) i" by blast
    have s2': "\<forall>i. i < sp s + 5 + 1 \<longrightarrow> stack s2 i = ((stack s)(sp s := n - 1, sp s + 1 := word_of_sp (bp s), sp s + 2 := word_of_ip 17, sp s + 3 := 1, sp s + 4 := n - 1, sp s + 5 := fibw (n - 1))) i"
      using s1(4,5) s2(5) by simp
    have "\<exists>s3. reaches (dt2_step dt2_program) s2 s3 \<and> ip s3 = 0 \<and> bp s3 = sp s + 2 \<and> sp s3 = sp s + 6
            \<and> (\<forall>i. i < sp s + 6 \<longrightarrow> stack s3 i = ((stack s)(sp s := fibw (n - 1), sp s + 1 := n - 2, sp s + 2 := word_of_sp (bp s), sp s + 3 := word_of_ip 26, sp s + 4 := 1, sp s + 5 := n - 2)) i)"
      using s(2-) fit n2 s1(3,4) s2(2,3,4) s2'
      apply -
      apply (rule exI, rule conjI)
      apply (rule reaches_step, simp add: dt2_defs uint_sp)
      apply (rule reaches_step, simp add: dt2_defs)
      apply (rule reaches_step, simp add: dt2_defs)
      apply (rule reaches_step, simp add: dt2_defs)
      apply (rule reaches_step, simp add: dt2_defs)
      apply (rule reaches_refl)
      apply (simp add: dt2_defs)
      done
    then obtain s3 where s3: "reaches (dt2_step dt2_program) s2 s3" "ip s3 = 0" "bp s3 = sp s + 2"
      "sp s3 = sp s + 6"
      "\<forall>i. i < sp s + 6 \<longrightarrow> stack s3 i = ((stack s)(sp s := fibw (n - 1), sp s + 1 := n - 2, sp s + 2 := word_of_sp (bp s), sp s + 3 := word_of_ip 26, sp s + 4 := 1, sp s + 5 := n - 2)) i"
      by blast
    have m2: "nat (sint (n - 2)) < nat (sint n)" using n2 by (simp add: sint_minus_2)
    have f2: "sp s3 + dt2_need (n - 2) \<le> 1024"
      using n2 fit s3(4) by (simp add: dt2_need_def sint_minus_2)
    have "\<exists>s4. reaches (dt2_step dt2_program) s3 s4 \<and> ip s4 = 32 \<and> bp s4 = bp s3 \<and> sp s4 = sp s3 + 1
          \<and> (\<forall>i. i \<le> sp s3 \<longrightarrow> stack s4 i = ((stack s3)(sp s3 := fibw (n - 2))) i)"
      using s s3 f2 by (intro less.hyps [OF m2]) simp_all
    then obtain s4 where s4: "reaches (dt2_step dt2_program) s3 s4" "ip s4 = 32" "bp s4 = bp s3"
      "sp s4 = sp s3 + 1"
      "\<forall>i. i \<le> sp s3 \<longrightarrow> stack s4 i = ((stack s3)(sp s3 := fibw (n - 2))) i" by blast
    have s4': "\<forall>i. i < sp s + 6 + 1 \<longrightarrow> stack s4 i = ((stack s)(sp s := fibw (n - 1), sp s + 1 := n - 2, sp s + 2 := word_of_sp (bp s), sp s + 3 := word_of_ip 26, sp s + 4 := 1, sp s + 5 := n - 2, sp s + 6 := fibw (n - 2))) i"
      using s3(4,5) s4(5) by simp
    have "\<exists>s5. reaches (dt2_step dt2_program) s4 s5 \<and> ip s5 = 32 \<and> bp s5 = bp s \<and> sp s5 = sp s + 1
            \<and> (\<forall>i. i \<le> sp s \<longrightarrow>
                  stack s5 i = ((stack s)(sp s := fibw (n - 1) + fibw (n - 2))) i)"
      using s(2-) fit n2 s3(3,4) s4(2,3,4) s4'
      apply -
      apply (rule exI, rule conjI)
      apply (rule reaches_step, simp add: dt2_defs uint_sp)
      apply (rule reaches_step, simp add: dt2_defs)
      apply (rule reaches_step, simp add: dt2_defs)
      apply (rule reaches_refl)
      apply (simp add: dt2_defs)
      done
    then obtain s5 where s5: "reaches (dt2_step dt2_program) s4 s5" "ip s5 = 32" "bp s5 = bp s"
      "sp s5 = sp s + 1"
      "\<forall>i. i \<le> sp s \<longrightarrow> stack s5 i = ((stack s)(sp s := fibw (n - 1) + fibw (n - 2))) i"
      by blast
    have "reaches (dt2_step dt2_program) s s5"
      using s1(1) s2(1) s3(1) s4(1) s5(1) by (blast intro: reaches_trans)
    with s5 n2 show ?thesis by (auto simp: fibw_rec)
  qed
qed

lemma dt2_fib_overflow:
  "ip s = 0 \<Longrightarrow> 0 \<le> bp s \<Longrightarrow> sp s = bp s + 4 \<Longrightarrow> stack s (bp s + 3) = n \<Longrightarrow>
   sp s \<le> 1024 \<Longrightarrow> 1024 < sp s + dt2_need n \<Longrightarrow>
   halts (dt2_step dt2_program) s (Undefined Stack_Store)"
proof (induction "nat (sint n)" arbitrary: n s rule: less_induct)
  case less
  note s = \<open>ip s = 0\<close> \<open>0 \<le> bp s\<close> \<open>sp s = bp s + 4\<close> \<open>stack s (bp s + 3) = n\<close>
  note top = \<open>sp s \<le> 1024\<close> and over = \<open>1024 < sp s + dt2_need n\<close>
  show ?case
  proof (cases "1024 < sp s + 2")
    case True
    with top consider "sp s = 1024" | "sp s = 1023" by linarith
    then show ?thesis
    proof cases
      case 1
      with s show ?thesis
        by - (rule halts_now, simp add: dt2_defs)
    next
      case 2
      with s show ?thesis
        by - (rule halts_later, simp add: dt2_defs, rule halts_now, simp add: dt2_defs)
    qed
  next
    case False
    then have b2: "sp s + 2 \<le> 1024" by simp
    with over have n2: "2 \<le> sint n" by (simp add: dt2_need_def split: if_splits)
    with over have ov: "1024 < sp s + (5 * sint n - 2)" by (simp add: dt2_need_def)
    show ?thesis
    proof (cases "1024 < sp s + 5")
      case True
      with s b2 n2 show ?thesis
        apply -
        apply (rule halts_later, simp add: dt2_defs)
        apply (rule halts_later, simp add: dt2_defs)
        apply (rule halts_later, simp add: dt2_defs)
        apply (rule halts_later, simp add: dt2_defs)
        apply (rule halts_later, simp add: dt2_defs)
        apply (rule halts_later, simp add: dt2_defs)
        apply (rule halts_later, simp add: dt2_defs)
        apply (rule halts_now, simp add: dt2_defs)
        done
    next
      case False
      then have fit: "sp s + 5 \<le> 1024" by simp
      have "\<exists>s1. reaches (dt2_step dt2_program) s s1 \<and> ip s1 = 0 \<and> bp s1 = sp s + 1 \<and> sp s1 = sp s + 5
              \<and> (\<forall>i. i < sp s + 5 \<longrightarrow> stack s1 i = ((stack s)(sp s := n - 1, sp s + 1 := word_of_sp (bp s), sp s + 2 := word_of_ip 17, sp s + 3 := 1, sp s + 4 := n - 1)) i)"
        using s fit n2
        apply -
        apply (rule exI, rule conjI)
        apply (rule reaches_step, simp add: dt2_defs)
        apply (rule reaches_step, simp add: dt2_defs)
        apply (rule reaches_step, simp add: dt2_defs)
        apply (rule reaches_step, simp add: dt2_defs)
        apply (rule reaches_step, simp add: dt2_defs)
        apply (rule reaches_step, simp add: dt2_defs)
        apply (rule reaches_step, simp add: dt2_defs)
        apply (rule reaches_step, simp add: dt2_defs)
        apply (rule reaches_refl)
        apply (simp add: dt2_defs)
        done
      then obtain s1 where s1: "reaches (dt2_step dt2_program) s s1" "ip s1 = 0" "bp s1 = sp s + 1"
        "sp s1 = sp s + 5"
        "\<forall>i. i < sp s + 5 \<longrightarrow> stack s1 i = ((stack s)(sp s := n - 1, sp s + 1 := word_of_sp (bp s), sp s + 2 := word_of_ip 17, sp s + 3 := 1, sp s + 4 := n - 1)) i"
        by blast
      have m1: "nat (sint (n - 1)) < nat (sint n)" using n2 by (simp add: sint_minus_1)
      have t1: "sp s1 \<le> 1024" using fit s1(4) by simp
      show ?thesis
      proof (cases "1024 < sp s1 + dt2_need (n - 1)")
        case True
        have "halts (dt2_step dt2_program) s1 (Undefined Stack_Store)"
          using s s1 t1 True by (intro less.hyps [OF m1]) simp_all
        with s1(1) show ?thesis by (rule reaches_halts)
      next
        case False
        then have f1: "sp s1 + dt2_need (n - 1) \<le> 1024" by simp
        then have fit3: "sp s + 6 \<le> 1024"
          using s1(4) by (simp add: dt2_need_def split: if_splits)
        have "\<exists>s2. reaches (dt2_step dt2_program) s1 s2 \<and> ip s2 = 32 \<and> bp s2 = bp s1 \<and> sp s2 = sp s1 + 1
            \<and> (\<forall>i. i \<le> sp s1 \<longrightarrow> stack s2 i = ((stack s1)(sp s1 := fibw (n - 1))) i)"
          using s s1 f1 by (intro dt2_fib_body) simp_all
        then obtain s2 where s2: "reaches (dt2_step dt2_program) s1 s2" "ip s2 = 32" "bp s2 = bp s1"
          "sp s2 = sp s1 + 1"
          "\<forall>i. i \<le> sp s1 \<longrightarrow> stack s2 i = ((stack s1)(sp s1 := fibw (n - 1))) i" by blast
        have s2': "\<forall>i. i < sp s + 5 + 1 \<longrightarrow> stack s2 i = ((stack s)(sp s := n - 1, sp s + 1 := word_of_sp (bp s), sp s + 2 := word_of_ip 17, sp s + 3 := 1, sp s + 4 := n - 1, sp s + 5 := fibw (n - 1))) i"
          using s1(4,5) s2(5) by simp
        have "\<exists>s3. reaches (dt2_step dt2_program) s2 s3 \<and> ip s3 = 0 \<and> bp s3 = sp s + 2 \<and> sp s3 = sp s + 6
                \<and> (\<forall>i. i < sp s + 6 \<longrightarrow> stack s3 i = ((stack s)(sp s := fibw (n - 1), sp s + 1 := n - 2, sp s + 2 := word_of_sp (bp s), sp s + 3 := word_of_ip 26, sp s + 4 := 1, sp s + 5 := n - 2)) i)"
          using s(2-) fit3 n2 s1(3,4) s2(2,3,4) s2'
          apply -
          apply (rule exI, rule conjI)
          apply (rule reaches_step, simp add: dt2_defs uint_sp)
          apply (rule reaches_step, simp add: dt2_defs)
          apply (rule reaches_step, simp add: dt2_defs)
          apply (rule reaches_step, simp add: dt2_defs)
          apply (rule reaches_step, simp add: dt2_defs)
          apply (rule reaches_refl)
          apply (simp add: dt2_defs)
          done
        then obtain s3 where s3: "reaches (dt2_step dt2_program) s2 s3" "ip s3 = 0" "bp s3 = sp s + 2"
          "sp s3 = sp s + 6"
          "\<forall>i. i < sp s + 6 \<longrightarrow> stack s3 i = ((stack s)(sp s := fibw (n - 1), sp s + 1 := n - 2, sp s + 2 := word_of_sp (bp s), sp s + 3 := word_of_ip 26, sp s + 4 := 1, sp s + 5 := n - 2)) i"
          by blast
        have m2: "nat (sint (n - 2)) < nat (sint n)" using n2 by (simp add: sint_minus_2)
        have t3: "sp s3 \<le> 1024" using fit3 s3(4) by simp
        have o3: "1024 < sp s3 + dt2_need (n - 2)"
          using ov f1 n2 s1(4) s3(4)
          by (simp add: dt2_need_def sint_minus_1 sint_minus_2 split: if_splits)
        have "halts (dt2_step dt2_program) s3 (Undefined Stack_Store)"
          using s s3 t3 o3 by (intro less.hyps [OF m2]) simp_all
        moreover have "reaches (dt2_step dt2_program) s s3"
          using s1(1) s2(1) s3(1) by (blast intro: reaches_trans)
        ultimately show ?thesis by (rule reaches_halts [rotated])
      qed
    qed
  qed
qed

lemma dt2_init:
  "dt2_init dt2_program stk n = Inr \<lparr>ip = 0, sp = 4, bp = 0, stack = stk(0 := 0, 1 := 0, 2 := 0, 3 := n)\<rparr>"
  by (simp add: dt2_init_def dt2_defs)

lemma dt2_halts:
  assumes "dt2_init dt2_program stk n = Inr s0"
  shows "halts (dt2_step dt2_program) s0
           (if sint n \<le> 204 then Return (fibw n) else Undefined Stack_Store)"
proof -
  from assms have s0: "s0 = \<lparr>ip = 0, sp = 4, bp = 0, stack = stk(0 := 0, 1 := 0, 2 := 0, 3 := n)\<rparr>"
    by (simp add: dt2_init)
  have pre: "ip s0 = 0" "0 \<le> bp s0" "sp s0 = bp s0 + 4" "stack s0 (bp s0 + 3) = n"
    by (simp_all add: s0)
  show ?thesis
  proof (cases "sint n \<le> 204")
    case True
    then have "sp s0 + dt2_need n \<le> 1024" by (simp add: dt2_need_def s0)
    with pre have "\<exists>s'. reaches (dt2_step dt2_program) s0 s' \<and> ip s' = 32 \<and> bp s' = bp s0
        \<and> sp s' = sp s0 + 1
        \<and> (\<forall>i. i \<le> sp s0 \<longrightarrow> stack s' i = ((stack s0)(sp s0 := fibw n)) i)"
      by (intro dt2_fib_body)
    then obtain s' where s': "reaches (dt2_step dt2_program) s0 s'" "ip s' = 32" "bp s' = 0"
      "sp s' = 4 + 1"
      "\<forall>i. i \<le> 4 \<longrightarrow> stack s' i = (stk(0 := 0, 1 := 0, 2 := 0, 3 := n, 4 := fibw n)) i"
      by (auto simp: s0)
    have "dt2_step dt2_program s' = Inl (Return (fibw n))"
      using s'(2-) by (simp add: dt2_defs)
    then have "halts (dt2_step dt2_program) s0 (Return (fibw n))"
      using s'(1) by (blast intro: reaches_halts halts_now)
    with True show ?thesis by simp
  next
    case False
    then have "1024 < sp s0 + dt2_need n" by (simp add: dt2_need_def s0)
    with pre have "halts (dt2_step dt2_program) s0 (Undefined Stack_Store)"
      by (intro dt2_fib_overflow) (simp_all add: s0)
    with False show ?thesis by simp
  qed
qed

lemma dt2_result:
  "dt2_execute stk n = Some (if sint n \<le> 204 then Return (fibw n) else Undefined Stack_Store)"
  using dt2_halts [OF dt2_init, of stk n, THEN halts_loop]
  by (simp add: dt2_execute_def dt2_start_def dt2_init)

section \<open>The Fibonacci program of directthreaded3.c\<close>

lemma dt3_fib_body:
  "ip s = 0 \<Longrightarrow> 1 \<le> bp s \<Longrightarrow> sp s = bp s + 3 \<Longrightarrow> stack s (bp s - 1) = n \<Longrightarrow>
   sp s + dt3_need n \<le> 1024 \<Longrightarrow>
   \<exists>s'. reaches (dt3_step dt3_program) s s' \<and> ip s' = 32 \<and> bp s' = bp s \<and> sp s' = sp s + 1
          \<and> (\<forall>i. i \<le> sp s \<longrightarrow> stack s' i = ((stack s)(sp s := fibw n)) i)"
proof (induction "nat (sint n)" arbitrary: n s rule: less_induct)
  case less
  note s = \<open>ip s = 0\<close> \<open>1 \<le> bp s\<close> \<open>sp s = bp s + 3\<close> \<open>stack s (bp s - 1) = n\<close>
  note fits = \<open>sp s + dt3_need n \<le> 1024\<close>
  show ?case
  proof (cases "sint n < 2")
    case True
    with fits have b5: "sp s + 2 \<le> 1024" by (simp add: dt3_need_def)
    show ?thesis
      using s b5 True
      apply -
      apply (rule exI, rule conjI)
      apply (rule reaches_step, simp add: dt3_defs)
      apply (rule reaches_step, simp add: dt3_defs)
      apply (rule reaches_step, simp add: dt3_defs)
      apply (rule reaches_step, simp add: dt3_defs)
      apply (rule reaches_step, simp add: dt3_defs)
      apply (rule reaches_refl)
      apply (simp add: fibw_small)
      done
  next
    case False
    then have n2: "2 \<le> sint n" by simp
    with fits have fit: "sp s + (4 * sint n - 1) \<le> 1024" by (simp add: dt3_need_def)
    have "\<exists>s1. reaches (dt3_step dt3_program) s s1 \<and> ip s1 = 0 \<and> bp s1 = sp s + 1 \<and> sp s1 = sp s + 4
            \<and> (\<forall>i. i < sp s + 4 \<longrightarrow> stack s1 i = ((stack s)(sp s := n - 1, sp s + 1 := word_of_sp (bp s), sp s + 2 := word_of_ip 17, sp s + 3 := 1)) i)"
      using s fit n2
      apply -
      apply (rule exI, rule conjI)
      apply (rule reaches_step, simp add: dt3_defs)
      apply (rule reaches_step, simp add: dt3_defs)
      apply (rule reaches_step, simp add: dt3_defs)
      apply (rule reaches_step, simp add: dt3_defs)
      apply (rule reaches_step, simp add: dt3_defs)
      apply (rule reaches_step, simp add: dt3_defs)
      apply (rule reaches_step, simp add: dt3_defs)
      apply (rule reaches_step, simp add: dt3_defs)
      apply (rule reaches_refl)
      apply (simp add: dt3_defs)
      done
    then obtain s1 where s1: "reaches (dt3_step dt3_program) s s1" "ip s1 = 0" "bp s1 = sp s + 1"
      "sp s1 = sp s + 4"
      "\<forall>i. i < sp s + 4 \<longrightarrow> stack s1 i = ((stack s)(sp s := n - 1, sp s + 1 := word_of_sp (bp s), sp s + 2 := word_of_ip 17, sp s + 3 := 1)) i"
      by blast
    have m1: "nat (sint (n - 1)) < nat (sint n)" using n2 by (simp add: sint_minus_1)
    have f1: "sp s1 + dt3_need (n - 1) \<le> 1024"
      using n2 fit s1(4) by (simp add: dt3_need_def sint_minus_1)
    have "\<exists>s2. reaches (dt3_step dt3_program) s1 s2 \<and> ip s2 = 32 \<and> bp s2 = bp s1 \<and> sp s2 = sp s1 + 1
          \<and> (\<forall>i. i \<le> sp s1 \<longrightarrow> stack s2 i = ((stack s1)(sp s1 := fibw (n - 1))) i)"
      using s s1 f1 by (intro less.hyps [OF m1]) simp_all
    then obtain s2 where s2: "reaches (dt3_step dt3_program) s1 s2" "ip s2 = 32" "bp s2 = bp s1"
      "sp s2 = sp s1 + 1"
      "\<forall>i. i \<le> sp s1 \<longrightarrow> stack s2 i = ((stack s1)(sp s1 := fibw (n - 1))) i" by blast
    have s2': "\<forall>i. i < sp s + 4 + 1 \<longrightarrow> stack s2 i = ((stack s)(sp s := n - 1, sp s + 1 := word_of_sp (bp s), sp s + 2 := word_of_ip 17, sp s + 3 := 1, sp s + 4 := fibw (n - 1))) i"
      using s1(4,5) s2(5) by simp
    have "\<exists>s3. reaches (dt3_step dt3_program) s2 s3 \<and> ip s3 = 0 \<and> bp s3 = sp s + 2 \<and> sp s3 = sp s + 5
            \<and> (\<forall>i. i < sp s + 5 \<longrightarrow> stack s3 i = ((stack s)(sp s := fibw (n - 1), sp s + 1 := n - 2, sp s + 2 := word_of_sp (bp s), sp s + 3 := word_of_ip 26, sp s + 4 := 1)) i)"
      using s(2-) fit n2 s1(3,4) s2(2,3,4) s2'
      apply -
      apply (rule exI, rule conjI)
      apply (rule reaches_step, simp add: dt3_defs uint_sp)
      apply (rule reaches_step, simp add: dt3_defs)
      apply (rule reaches_step, simp add: dt3_defs)
      apply (rule reaches_step, simp add: dt3_defs)
      apply (rule reaches_step, simp add: dt3_defs)
      apply (rule reaches_refl)
      apply (simp add: dt3_defs)
      done
    then obtain s3 where s3: "reaches (dt3_step dt3_program) s2 s3" "ip s3 = 0" "bp s3 = sp s + 2"
      "sp s3 = sp s + 5"
      "\<forall>i. i < sp s + 5 \<longrightarrow> stack s3 i = ((stack s)(sp s := fibw (n - 1), sp s + 1 := n - 2, sp s + 2 := word_of_sp (bp s), sp s + 3 := word_of_ip 26, sp s + 4 := 1)) i"
      by blast
    have m2: "nat (sint (n - 2)) < nat (sint n)" using n2 by (simp add: sint_minus_2)
    have f2: "sp s3 + dt3_need (n - 2) \<le> 1024"
      using n2 fit s3(4) by (simp add: dt3_need_def sint_minus_2)
    have "\<exists>s4. reaches (dt3_step dt3_program) s3 s4 \<and> ip s4 = 32 \<and> bp s4 = bp s3 \<and> sp s4 = sp s3 + 1
          \<and> (\<forall>i. i \<le> sp s3 \<longrightarrow> stack s4 i = ((stack s3)(sp s3 := fibw (n - 2))) i)"
      using s s3 f2 by (intro less.hyps [OF m2]) simp_all
    then obtain s4 where s4: "reaches (dt3_step dt3_program) s3 s4" "ip s4 = 32" "bp s4 = bp s3"
      "sp s4 = sp s3 + 1"
      "\<forall>i. i \<le> sp s3 \<longrightarrow> stack s4 i = ((stack s3)(sp s3 := fibw (n - 2))) i" by blast
    have s4': "\<forall>i. i < sp s + 5 + 1 \<longrightarrow> stack s4 i = ((stack s)(sp s := fibw (n - 1), sp s + 1 := n - 2, sp s + 2 := word_of_sp (bp s), sp s + 3 := word_of_ip 26, sp s + 4 := 1, sp s + 5 := fibw (n - 2))) i"
      using s3(4,5) s4(5) by simp
    have "\<exists>s5. reaches (dt3_step dt3_program) s4 s5 \<and> ip s5 = 32 \<and> bp s5 = bp s \<and> sp s5 = sp s + 1
            \<and> (\<forall>i. i \<le> sp s \<longrightarrow>
                  stack s5 i = ((stack s)(sp s := fibw (n - 1) + fibw (n - 2))) i)"
      using s(2-) fit n2 s3(3,4) s4(2,3,4) s4'
      apply -
      apply (rule exI, rule conjI)
      apply (rule reaches_step, simp add: dt3_defs uint_sp)
      apply (rule reaches_step, simp add: dt3_defs)
      apply (rule reaches_step, simp add: dt3_defs)
      apply (rule reaches_refl)
      apply (simp add: dt3_defs)
      done
    then obtain s5 where s5: "reaches (dt3_step dt3_program) s4 s5" "ip s5 = 32" "bp s5 = bp s"
      "sp s5 = sp s + 1"
      "\<forall>i. i \<le> sp s \<longrightarrow> stack s5 i = ((stack s)(sp s := fibw (n - 1) + fibw (n - 2))) i"
      by blast
    have "reaches (dt3_step dt3_program) s s5"
      using s1(1) s2(1) s3(1) s4(1) s5(1) by (blast intro: reaches_trans)
    with s5 n2 show ?thesis by (auto simp: fibw_rec)
  qed
qed

lemma dt3_fib_overflow:
  "ip s = 0 \<Longrightarrow> 1 \<le> bp s \<Longrightarrow> sp s = bp s + 3 \<Longrightarrow> stack s (bp s - 1) = n \<Longrightarrow>
   sp s \<le> 1024 \<Longrightarrow> 1024 < sp s + dt3_need n \<Longrightarrow>
   halts (dt3_step dt3_program) s (Undefined Stack_Store)"
proof (induction "nat (sint n)" arbitrary: n s rule: less_induct)
  case less
  note s = \<open>ip s = 0\<close> \<open>1 \<le> bp s\<close> \<open>sp s = bp s + 3\<close> \<open>stack s (bp s - 1) = n\<close>
  note top = \<open>sp s \<le> 1024\<close> and over = \<open>1024 < sp s + dt3_need n\<close>
  show ?case
  proof (cases "1024 < sp s + 2")
    case True
    with top consider "sp s = 1024" | "sp s = 1023" by linarith
    then show ?thesis
    proof cases
      case 1
      with s show ?thesis
        by - (rule halts_now, simp add: dt3_defs)
    next
      case 2
      with s show ?thesis
        by - (rule halts_later, simp add: dt3_defs, rule halts_now, simp add: dt3_defs)
    qed
  next
    case False
    then have b2: "sp s + 2 \<le> 1024" by simp
    with over have n2: "2 \<le> sint n" by (simp add: dt3_need_def split: if_splits)
    with over have ov: "1024 < sp s + (4 * sint n - 1)" by (simp add: dt3_need_def)
    show ?thesis
    proof (cases "1024 < sp s + 4")
      case True
      with s b2 n2 show ?thesis
        apply -
        apply (rule halts_later, simp add: dt3_defs)
        apply (rule halts_later, simp add: dt3_defs)
        apply (rule halts_later, simp add: dt3_defs)
        apply (rule halts_later, simp add: dt3_defs)
        apply (rule halts_later, simp add: dt3_defs)
        apply (rule halts_later, simp add: dt3_defs)
        apply (rule halts_later, simp add: dt3_defs)
        apply (rule halts_now, simp add: dt3_defs)
        done
    next
      case False
      then have fit: "sp s + 4 \<le> 1024" by simp
      have "\<exists>s1. reaches (dt3_step dt3_program) s s1 \<and> ip s1 = 0 \<and> bp s1 = sp s + 1 \<and> sp s1 = sp s + 4
              \<and> (\<forall>i. i < sp s + 4 \<longrightarrow> stack s1 i = ((stack s)(sp s := n - 1, sp s + 1 := word_of_sp (bp s), sp s + 2 := word_of_ip 17, sp s + 3 := 1)) i)"
        using s fit n2
        apply -
        apply (rule exI, rule conjI)
        apply (rule reaches_step, simp add: dt3_defs)
        apply (rule reaches_step, simp add: dt3_defs)
        apply (rule reaches_step, simp add: dt3_defs)
        apply (rule reaches_step, simp add: dt3_defs)
        apply (rule reaches_step, simp add: dt3_defs)
        apply (rule reaches_step, simp add: dt3_defs)
        apply (rule reaches_step, simp add: dt3_defs)
        apply (rule reaches_step, simp add: dt3_defs)
        apply (rule reaches_refl)
        apply (simp add: dt3_defs)
        done
      then obtain s1 where s1: "reaches (dt3_step dt3_program) s s1" "ip s1 = 0" "bp s1 = sp s + 1"
        "sp s1 = sp s + 4"
        "\<forall>i. i < sp s + 4 \<longrightarrow> stack s1 i = ((stack s)(sp s := n - 1, sp s + 1 := word_of_sp (bp s), sp s + 2 := word_of_ip 17, sp s + 3 := 1)) i"
        by blast
      have m1: "nat (sint (n - 1)) < nat (sint n)" using n2 by (simp add: sint_minus_1)
      have t1: "sp s1 \<le> 1024" using fit s1(4) by simp
      show ?thesis
      proof (cases "1024 < sp s1 + dt3_need (n - 1)")
        case True
        have "halts (dt3_step dt3_program) s1 (Undefined Stack_Store)"
          using s s1 t1 True by (intro less.hyps [OF m1]) simp_all
        with s1(1) show ?thesis by (rule reaches_halts)
      next
        case False
        then have f1: "sp s1 + dt3_need (n - 1) \<le> 1024" by simp
        then have fit3: "sp s + 5 \<le> 1024"
          using s1(4) by (simp add: dt3_need_def split: if_splits)
        have "\<exists>s2. reaches (dt3_step dt3_program) s1 s2 \<and> ip s2 = 32 \<and> bp s2 = bp s1 \<and> sp s2 = sp s1 + 1
            \<and> (\<forall>i. i \<le> sp s1 \<longrightarrow> stack s2 i = ((stack s1)(sp s1 := fibw (n - 1))) i)"
          using s s1 f1 by (intro dt3_fib_body) simp_all
        then obtain s2 where s2: "reaches (dt3_step dt3_program) s1 s2" "ip s2 = 32" "bp s2 = bp s1"
          "sp s2 = sp s1 + 1"
          "\<forall>i. i \<le> sp s1 \<longrightarrow> stack s2 i = ((stack s1)(sp s1 := fibw (n - 1))) i" by blast
        have s2': "\<forall>i. i < sp s + 4 + 1 \<longrightarrow> stack s2 i = ((stack s)(sp s := n - 1, sp s + 1 := word_of_sp (bp s), sp s + 2 := word_of_ip 17, sp s + 3 := 1, sp s + 4 := fibw (n - 1))) i"
          using s1(4,5) s2(5) by simp
        have "\<exists>s3. reaches (dt3_step dt3_program) s2 s3 \<and> ip s3 = 0 \<and> bp s3 = sp s + 2 \<and> sp s3 = sp s + 5
                \<and> (\<forall>i. i < sp s + 5 \<longrightarrow> stack s3 i = ((stack s)(sp s := fibw (n - 1), sp s + 1 := n - 2, sp s + 2 := word_of_sp (bp s), sp s + 3 := word_of_ip 26, sp s + 4 := 1)) i)"
          using s(2-) fit3 n2 s1(3,4) s2(2,3,4) s2'
          apply -
          apply (rule exI, rule conjI)
          apply (rule reaches_step, simp add: dt3_defs uint_sp)
          apply (rule reaches_step, simp add: dt3_defs)
          apply (rule reaches_step, simp add: dt3_defs)
          apply (rule reaches_step, simp add: dt3_defs)
          apply (rule reaches_step, simp add: dt3_defs)
          apply (rule reaches_refl)
          apply (simp add: dt3_defs)
          done
        then obtain s3 where s3: "reaches (dt3_step dt3_program) s2 s3" "ip s3 = 0" "bp s3 = sp s + 2"
          "sp s3 = sp s + 5"
          "\<forall>i. i < sp s + 5 \<longrightarrow> stack s3 i = ((stack s)(sp s := fibw (n - 1), sp s + 1 := n - 2, sp s + 2 := word_of_sp (bp s), sp s + 3 := word_of_ip 26, sp s + 4 := 1)) i"
          by blast
        have m2: "nat (sint (n - 2)) < nat (sint n)" using n2 by (simp add: sint_minus_2)
        have t3: "sp s3 \<le> 1024" using fit3 s3(4) by simp
        have o3: "1024 < sp s3 + dt3_need (n - 2)"
          using ov f1 n2 s1(4) s3(4)
          by (simp add: dt3_need_def sint_minus_1 sint_minus_2 split: if_splits)
        have "halts (dt3_step dt3_program) s3 (Undefined Stack_Store)"
          using s s3 t3 o3 by (intro less.hyps [OF m2]) simp_all
        moreover have "reaches (dt3_step dt3_program) s s3"
          using s1(1) s2(1) s3(1) by (blast intro: reaches_trans)
        ultimately show ?thesis by (rule reaches_halts [rotated])
      qed
    qed
  qed
qed

lemma dt3_init:
  "dt3_init dt3_program stk n = Inr \<lparr>ip = 0, sp = 4, bp = 1, stack = stk(0 := n, 1 := 0, 2 := 0, 3 := 0)\<rparr>"
  by (simp add: dt3_init_def dt3_defs)

lemma dt3_halts:
  assumes "dt3_init dt3_program stk n = Inr s0"
  shows "halts (dt3_step dt3_program) s0
           (if sint n \<le> 255 then Return (fibw n) else Undefined Stack_Store)"
proof -
  from assms have s0: "s0 = \<lparr>ip = 0, sp = 4, bp = 1, stack = stk(0 := n, 1 := 0, 2 := 0, 3 := 0)\<rparr>"
    by (simp add: dt3_init)
  have pre: "ip s0 = 0" "1 \<le> bp s0" "sp s0 = bp s0 + 3" "stack s0 (bp s0 - 1) = n"
    by (simp_all add: s0)
  show ?thesis
  proof (cases "sint n \<le> 255")
    case True
    then have "sp s0 + dt3_need n \<le> 1024" by (simp add: dt3_need_def s0)
    with pre have "\<exists>s'. reaches (dt3_step dt3_program) s0 s' \<and> ip s' = 32 \<and> bp s' = bp s0
        \<and> sp s' = sp s0 + 1
        \<and> (\<forall>i. i \<le> sp s0 \<longrightarrow> stack s' i = ((stack s0)(sp s0 := fibw n)) i)"
      by (intro dt3_fib_body)
    then obtain s' where s': "reaches (dt3_step dt3_program) s0 s'" "ip s' = 32" "bp s' = 1"
      "sp s' = 4 + 1"
      "\<forall>i. i \<le> 4 \<longrightarrow> stack s' i = (stk(0 := n, 1 := 0, 2 := 0, 3 := 0, 4 := fibw n)) i"
      by (auto simp: s0)
    have "dt3_step dt3_program s' = Inl (Return (fibw n))"
      using s'(2-) by (simp add: dt3_defs)
    then have "halts (dt3_step dt3_program) s0 (Return (fibw n))"
      using s'(1) by (blast intro: reaches_halts halts_now)
    with True show ?thesis by simp
  next
    case False
    then have "1024 < sp s0 + dt3_need n" by (simp add: dt3_need_def s0)
    with pre have "halts (dt3_step dt3_program) s0 (Undefined Stack_Store)"
      by (intro dt3_fib_overflow) (simp_all add: s0)
    with False show ?thesis by simp
  qed
qed

lemma dt3_result:
  "dt3_execute stk n = Some (if sint n \<le> 255 then Return (fibw n) else Undefined Stack_Store)"
  using dt3_halts [OF dt3_init, of stk n, THEN halts_loop]
  by (simp add: dt3_execute_def dt3_start_def dt3_init)

section \<open>The Fibonacci program of directthreaded4.c\<close>






section \<open>The Fibonacci program of comboinstructions.c\<close>






section \<open>The claims\<close>

lemma fib_spec_values:
  "fib_spec 0 = 1" "fib_spec 1 = 1" "fib_spec 2 = 2" "fib_spec 3 = 3" "fib_spec 4 = 5"
  "fib_spec 5 = 8" "fib_spec 10 = 89" "fib_spec 20 = 10946"
  by (simp_all add: fib_spec.simps)

lemma fibw_values:
  "fibw 0 = 1" "fibw 1 = 1" "fibw 2 = 2" "fibw 3 = 3" "fibw 4 = 5"
  "fibw 5 = 8" "fibw 10 = 89" "fibw 20 = 10946"
  by (simp_all add: fibw_def fib_spec_values)

subsection \<open>C1: the three dispatch strategies on the built-in program\<close>

text \<open>
  C1, as amended. wordcode.c, handlercode2.c and directthreaded3.c each run their own
  encoding of the Fibonacci program (different \<^verbatim>\<open>CALL\<close> and \<^verbatim>\<open>LOAD\<close> operands, different
  frames). For every argument \<open>n \<le> 204\<close> (signed) the three return the same word, \<open>f(n)\<close>.
  They need 3, 5 and 4 stack words per nested call: handlercode2.c stores past the stack
  array for every \<open>n > 204\<close>, directthreaded3.c for every \<open>n > 255\<close>, wordcode.c for every
  \<open>n > 340\<close>.
\<close>

theorem strategies_agree_on_fib:
  "(sint n \<le> 204 \<longrightarrow>
      wc_main n = Some (Return (fibw n)) \<and> hc2_main n = Some (Return (fibw n))
      \<and> dt3_execute stk n = Some (Return (fibw n)))
   \<and> wc_main n = Some (if sint n \<le> 340 then Return (fibw n) else Undefined Stack_Store)
   \<and> hc2_main n = Some (if sint n \<le> 204 then Return (fibw n) else Undefined Stack_Store)
   \<and> dt3_execute stk n
       = Some (if sint n \<le> 255 then Return (fibw n) else Undefined Stack_Store)"
  by (simp add: wc_main_def hc2_main_def wc_result hc2_result dt3_result)

theorem strategies_agree_on_fib_witness:
  "sint (10 :: word_t) \<le> 204 \<and> wc_main 10 = Some (Return 89) \<and> hc2_main 10 = Some (Return 89)
   \<and> dt3_execute (\<lambda>_. 0) 10 = Some (Return 89)"
  using strategies_agree_on_fib [of 10 "\<lambda>_. 0"] by (simp add: fibw_values)

text \<open>
  The claim as stated fails at the argument 205, where wordcode.c returns and
  handlercode2.c stores to \<^verbatim>\<open>stack[1024]\<close>.
\<close>

theorem strategies_agree_on_fib_counterexample:
  "wc_main 205 = Some (Return (fibw 205)) \<and> hc2_main 205 = Some (Undefined Stack_Store)"
  by (simp add: wc_main_def hc2_main_def wc_result hc2_result)

subsection \<open>C2: the built-in program of wordcode.c computes the reference function\<close>

text \<open>
  C2, as amended. For every argument \<open>n\<close> with \<open>n \<le> 340\<close> (read as a signed 64-bit value,
  so for every negative argument too), \<^verbatim>\<open>main\<close> of wordcode.c leaves \<^verbatim>\<open>execute\<close> with the
  result \<open>f(n)\<close>, as a 64-bit word, where \<open>f(n) = 1 if n < 2 else f(n-1) + f(n-2)\<close>. In
  particular the results for 0, 1, 2, 3, 4, 5, 10 and 20 are 1, 1, 2, 3, 5, 8, 89 and 10946.
\<close>

theorem wc_computes_fib:
  "(sint n \<le> 340 \<longrightarrow> wc_main n = Some (Return (word_of_int (fib_spec (sint n)))))
   \<and> wc_main 0 = Some (Return 1) \<and> wc_main 1 = Some (Return 1)
   \<and> wc_main 2 = Some (Return 2) \<and> wc_main 3 = Some (Return 3)
   \<and> wc_main 4 = Some (Return 5) \<and> wc_main 5 = Some (Return 8)
   \<and> wc_main 10 = Some (Return 89) \<and> wc_main 20 = Some (Return 10946)"
  by (simp add: wc_main_def wc_result fibw_values) (simp add: fibw_def)

theorem wc_computes_fib_witness:
  "sint (5 :: word_t) \<le> 340 \<and> wc_main 5 = Some (Return (word_of_int (fib_spec (sint (5 :: word_t)))))"
  using wc_computes_fib [of 5] by simp

text \<open>
  The claim as stated, for every argument, fails at 341: the recursion is 340 calls deep
  when the second push of the innermost call stores to \<^verbatim>\<open>stack[1024]\<close>.
\<close>

theorem wc_computes_fib_counterexample:
  "wc_main 341 = Some (Undefined Stack_Store)"
  by (simp add: wc_main_def wc_result)

subsection \<open>C3: the combo instruction\<close>



subsection \<open>C4: frame discipline\<close>

text \<open>
  A \<^verbatim>\<open>CALL\<close> of directthreaded3.c and a later \<^verbatim>\<open>RET\<close> in the frame it pushed, for any
  program.
\<close>

lemma dt3_call_ret:
  assumes call: "0 \<le> ip s" "ip s + 2 < int (length (code P))" "int (length (code P)) < 2 ^ 63"
      "code P ! nat (ip s) = OP L_CALL" "code P ! nat (ip s + 2) = W argc"
      "0 \<le> bp s" "bp s \<le> STACK_SIZE"
      "dt3_step P s = Inr s1"
    and callee: "bp s2 = bp s1" "\<forall>i. i < bp s1 + 3 \<longrightarrow> stack s2 i = stack s1 i"
    and ret: "0 \<le> ip s2" "ip s2 < int (length (code P))" "code P ! nat (ip s2) = OP L_RET"
      "dt3_step P s2 = Inr s3"
  shows "bp s3 = bp s \<and> ip s3 = ip s + 3 \<and> sp s3 = sp s - uint argc + 1
         \<and> stack s3 (sp s3 - 1) = stack s2 (sp s2 - 1)
         \<and> (\<forall>i. i < sp s3 - 1 \<longrightarrow> stack s3 i = stack s i)"
proof -
  from call have s1: "bp s1 = sp s" "0 \<le> sp s" "sp s + 3 \<le> STACK_SIZE"
    "stack s1 = (stack s)(sp s := word_of_sp (bp s), sp s + 1 := word_of_ip (ip s + 3),
                           sp s + 2 := argc)"
    by (auto simp: dt3_step_def dt3_goto_def dt3_CALL_def GOTO_NEXT_def FETCH_def
          push_def lookup_def bnd_def Let_def STACK_SIZE_def
          add.commute [of "2 :: int"] add.commute [of "3 :: int"]
          split: if_splits cell.splits)
  have w1: "sp_of_word (word_of_sp (bp s)) = bp s"
    using call(6,7) by (intro sp_of_word_of_sp) (simp_all add: STACK_SIZE_def)
  have w2: "ip_of_word (word_of_ip (ip s + 3)) = ip s + 3"
    using call(1,2,3) by (intro ip_of_word_of_ip) simp_all
  have fr: "stack s2 (sp s) = word_of_sp (bp s)" "stack s2 (sp s + 1) = word_of_ip (ip s + 3)"
    "stack s2 (sp s + 2) = argc"
    using callee s1 by simp_all
  have below: "stack s2 i = stack s i" if "i < sp s - uint w" for i and w :: word_t
  proof -
    from that have "i < sp s" using uint_ge_0 [of w] by linarith
    with callee s1 show ?thesis by simp
  qed
  from ret callee(1) s1(1,2,3) fr w1 w2 call(1) show ?thesis
    by (auto simp: dt3_step_def dt3_goto_def dt_RET_def GOTO_NEXT_def
          push_def pop_def bnd_def Let_def STACK_SIZE_def NULL_def below
          add.commute [of "1 :: int"] add.commute [of "2 :: int"] add.commute [of "3 :: int"]
          split: if_splits)
qed

text \<open>
  The calls of the built-in program of directthreaded3.c: from a \<^verbatim>\<open>CALL\<close> with the
  argument \<open>a\<close> on top of the stack to the \<^verbatim>\<open>RET\<close> of the callee, the nested calls included.
\<close>

lemma dt3_fib_call:
  assumes site: "ip s = 14 \<or> ip s = 23"
    and regs: "0 \<le> bp s" "bp s \<le> STACK_SIZE" "1 \<le> sp s"
    and fits: "sp s + 3 + dt3_need (stack s (sp s - 1)) \<le> STACK_SIZE"
  shows "\<exists>s1 s2 s3. dt3_step dt3_program s = Inr s1 \<and> bp s1 = sp s
      \<and> reaches (dt3_step dt3_program) s1 s2 \<and> bp s2 = bp s1 \<and> ip s2 = 32
      \<and> dt3_step dt3_program s2 = Inr s3
      \<and> bp s3 = bp s \<and> ip s3 = ip s + 3 \<and> sp s3 = sp s - 1 + 1
      \<and> stack s3 (sp s3 - 1) = fibw (stack s (sp s - 1))
      \<and> (\<forall>i. i < sp s3 - 1 \<longrightarrow> stack s3 i = stack s i)"
proof -
  define a where "a = stack s (sp s - 1)"
  have need: "2 \<le> dt3_need a" by (simp add: dt3_need_def)
  with fits have top: "sp s + 5 \<le> 1024" by (simp add: a_def STACK_SIZE_def)
  have "\<exists>s1. dt3_step dt3_program s = Inr s1 \<and> ip s1 = 0 \<and> bp s1 = sp s \<and> sp s1 = sp s + 3
      \<and> (\<forall>i. i < sp s + 3 \<longrightarrow> stack s1 i =
            ((stack s)(sp s := word_of_sp (bp s), sp s + 1 := word_of_ip (ip s + 3),
                       sp s + 2 := 1)) i)"
    using site regs top by (auto simp: dt3_defs)
  then obtain s1 where s1: "dt3_step dt3_program s = Inr s1" "ip s1 = 0" "bp s1 = sp s"
    "sp s1 = sp s + 3"
    "\<forall>i. i < sp s + 3 \<longrightarrow> stack s1 i =
            ((stack s)(sp s := word_of_sp (bp s), sp s + 1 := word_of_ip (ip s + 3),
                       sp s + 2 := 1)) i"
    by blast
  have arg1: "stack s1 (bp s1 - 1) = a"
    using s1(3,5) by (simp add: a_def)
  have "\<exists>s2. reaches (dt3_step dt3_program) s1 s2 \<and> ip s2 = 32 \<and> bp s2 = bp s1
      \<and> sp s2 = sp s1 + 1
      \<and> (\<forall>i. i \<le> sp s1 \<longrightarrow> stack s2 i = ((stack s1)(sp s1 := fibw a)) i)"
    using s1(2,3,4) regs arg1 fits by (intro dt3_fib_body) (simp_all add: a_def STACK_SIZE_def)
  then obtain s2 where s2: "reaches (dt3_step dt3_program) s1 s2" "ip s2 = 32" "bp s2 = bp s1"
    "sp s2 = sp s1 + 1"
    "\<forall>i. i \<le> sp s1 \<longrightarrow> stack s2 i = ((stack s1)(sp s1 := fibw a)) i"
    by blast
  have s2': "\<forall>i. i < sp s + 4 \<longrightarrow> stack s2 i =
            ((stack s)(sp s := word_of_sp (bp s), sp s + 1 := word_of_ip (ip s + 3),
                       sp s + 2 := 1, sp s + 3 := fibw a)) i"
    using s1(4,5) s2(5) by simp
  have w1: "sp_of_word (word_of_sp (bp s)) = bp s"
    using regs by (intro sp_of_word_of_sp) (simp_all add: STACK_SIZE_def)
  have w2: "ip_of_word (word_of_ip (ip s + 3)) = ip s + 3"
    using site by (intro ip_of_word_of_ip) auto
  have "\<exists>s3. dt3_step dt3_program s2 = Inr s3 \<and> bp s3 = bp s \<and> ip s3 = ip s + 3
      \<and> sp s3 = sp s \<and> stack s3 (sp s - 1) = fibw a
      \<and> (\<forall>i. i < sp s - 1 \<longrightarrow> stack s3 i = stack s i)"
    using site regs top s1(3,4) s2(2,3,4) s2' w1 w2
    by (auto simp: dt3_step_def dt3_goto_def dt_RET_def GOTO_NEXT_def dt3_program_def
          dt3_fib_code_def push_def pop_def bnd_def Let_def STACK_SIZE_def NULL_def)
  then obtain s3 where s3: "dt3_step dt3_program s2 = Inr s3" "bp s3 = bp s"
    "ip s3 = ip s + 3" "sp s3 = sp s" "stack s3 (sp s - 1) = fibw a"
    "\<forall>i. i < sp s - 1 \<longrightarrow> stack s3 i = stack s i"
    by blast
  from s1(1,3) s2(1,2,3) s3 show ?thesis
    unfolding a_def by (intro exI [of _ s1] exI [of _ s2] exI [of _ s3]) simp
qed

text \<open>
  C4. In directthreaded3.c, take a \<^verbatim>\<open>CALL\<close> with argument count \<open>argc\<close> that succeeds, and a
  later \<^verbatim>\<open>RET\<close> executed in the frame of that call (same \<open>bp\<close>) by a callee that has left
  the three control words of its frame and the stack below them as the \<^verbatim>\<open>CALL\<close> made them,
  whatever it has pushed above. After that \<^verbatim>\<open>RET\<close>, \<open>bp\<close> is the \<open>bp\<close> before the \<^verbatim>\<open>CALL\<close>,
  \<open>ip\<close> is the \<open>ip\<close> the \<^verbatim>\<open>CALL\<close> saved (the instruction after the \<^verbatim>\<open>CALL\<close>), \<open>sp\<close> is the
  \<open>sp\<close> before the \<^verbatim>\<open>CALL\<close> minus \<open>argc\<close> plus one, the top word is the returned value, and
  every word below it is what the caller had there before the \<^verbatim>\<open>CALL\<close>: nothing of the
  callee remains. In the built-in program every \<^verbatim>\<open>CALL\<close> whose recursion fits the stack
  is followed by such a \<^verbatim>\<open>RET\<close>: the run reaches the \<^verbatim>\<open>RET\<close> of the callee in the frame
  the \<^verbatim>\<open>CALL\<close> pushed and continues after the \<^verbatim>\<open>CALL\<close> with the registers restored, the
  argument replaced by the result and the stack below unchanged.
\<close>

theorem dt3_frame_discipline:
  "(0 \<le> ip s \<and> ip s + 2 < int (length (code P)) \<and> int (length (code P)) < 2 ^ 63
      \<and> code P ! nat (ip s) = OP L_CALL \<and> code P ! nat (ip s + 2) = W argc
      \<and> 0 \<le> bp s \<and> bp s \<le> STACK_SIZE
      \<and> dt3_step P s = Inr s1
      \<and> bp s2 = bp s1 \<and> (\<forall>i. i < bp s1 + 3 \<longrightarrow> stack s2 i = stack s1 i)
      \<and> 0 \<le> ip s2 \<and> ip s2 < int (length (code P)) \<and> code P ! nat (ip s2) = OP L_RET
      \<and> dt3_step P s2 = Inr s3 \<longrightarrow>
    bp s3 = bp s \<and> ip s3 = ip s + 3 \<and> sp s3 = sp s - uint argc + 1
      \<and> stack s3 (sp s3 - 1) = stack s2 (sp s2 - 1)
      \<and> (\<forall>i. i < sp s3 - 1 \<longrightarrow> stack s3 i = stack s i))
   \<and> ((ip t = 14 \<or> ip t = 23) \<and> 0 \<le> bp t \<and> bp t \<le> STACK_SIZE \<and> 1 \<le> sp t
      \<and> sp t + 3 + dt3_need (stack t (sp t - 1)) \<le> STACK_SIZE \<longrightarrow>
    (\<exists>t1 t2 t3. dt3_step dt3_program t = Inr t1 \<and> bp t1 = sp t
      \<and> reaches (dt3_step dt3_program) t1 t2 \<and> bp t2 = bp t1 \<and> ip t2 = 32
      \<and> dt3_step dt3_program t2 = Inr t3
      \<and> bp t3 = bp t \<and> ip t3 = ip t + 3 \<and> sp t3 = sp t - 1 + 1
      \<and> stack t3 (sp t3 - 1) = fibw (stack t (sp t - 1))
      \<and> (\<forall>i. i < sp t3 - 1 \<longrightarrow> stack t3 i = stack t i)))"
proof (rule conjI)
  show "0 \<le> ip s \<and> ip s + 2 < int (length (code P)) \<and> int (length (code P)) < 2 ^ 63
      \<and> code P ! nat (ip s) = OP L_CALL \<and> code P ! nat (ip s + 2) = W argc
      \<and> 0 \<le> bp s \<and> bp s \<le> STACK_SIZE
      \<and> dt3_step P s = Inr s1
      \<and> bp s2 = bp s1 \<and> (\<forall>i. i < bp s1 + 3 \<longrightarrow> stack s2 i = stack s1 i)
      \<and> 0 \<le> ip s2 \<and> ip s2 < int (length (code P)) \<and> code P ! nat (ip s2) = OP L_RET
      \<and> dt3_step P s2 = Inr s3 \<longrightarrow>
    bp s3 = bp s \<and> ip s3 = ip s + 3 \<and> sp s3 = sp s - uint argc + 1
      \<and> stack s3 (sp s3 - 1) = stack s2 (sp s2 - 1)
      \<and> (\<forall>i. i < sp s3 - 1 \<longrightarrow> stack s3 i = stack s i)"
    using dt3_call_ret [of s P argc s1 s2 s3] by blast
next
  show "(ip t = 14 \<or> ip t = 23) \<and> 0 \<le> bp t \<and> bp t \<le> STACK_SIZE \<and> 1 \<le> sp t
      \<and> sp t + 3 + dt3_need (stack t (sp t - 1)) \<le> STACK_SIZE \<longrightarrow>
    (\<exists>t1 t2 t3. dt3_step dt3_program t = Inr t1 \<and> bp t1 = sp t
      \<and> reaches (dt3_step dt3_program) t1 t2 \<and> bp t2 = bp t1 \<and> ip t2 = 32
      \<and> dt3_step dt3_program t2 = Inr t3
      \<and> bp t3 = bp t \<and> ip t3 = ip t + 3 \<and> sp t3 = sp t - 1 + 1
      \<and> stack t3 (sp t3 - 1) = fibw (stack t (sp t - 1))
      \<and> (\<forall>i. i < sp t3 - 1 \<longrightarrow> stack t3 i = stack t i))"
    using dt3_fib_call [of t] by blast
qed

theorem dt3_frame_discipline_witness:
  "dt3_step dt3_program \<lparr>ip = 14, sp = 5, bp = 1, stack = (\<lambda>_. 0)(0 := 5, 4 := 4)\<rparr>
     = Inr \<lparr>ip = 0, sp = 8, bp = 5, stack = (\<lambda>_. 0)(0 := 5, 4 := 4, 5 := 1, 6 := 18, 7 := 1)\<rparr>
   \<and> dt3_step dt3_program
        \<lparr>ip = 32, sp = 11, bp = 5,
          stack = (\<lambda>_. 0)(0 := 5, 4 := 4, 5 := 1, 6 := 18, 7 := 1, 8 := 9, 9 := 9, 10 := 5)\<rparr>
     = Inr \<lparr>ip = 17, sp = 5, bp = 1,
          stack = (\<lambda>_. 0)(0 := 5, 4 := 4, 5 := 1, 6 := 18, 7 := 1, 8 := 9, 9 := 9, 10 := 5,
                     4 := 5)\<rparr>
   \<and> (\<exists>t3 :: interpreter. bp t3 = 1 \<and> ip t3 = 17 \<and> sp t3 = 5 \<and> stack t3 4 = 5 \<and> stack t3 0 = 5)"
proof -
  let ?s = "\<lparr>ip = 14, sp = 5, bp = 1, stack = (\<lambda>_. 0)(0 := 5, 4 := 4)\<rparr>"
  let ?s1 = "\<lparr>ip = 0, sp = 8, bp = 5,
               stack = (\<lambda>_. 0)(0 := 5, 4 := 4, 5 := 1, 6 := 18, 7 := 1)\<rparr>"
  let ?s2 = "\<lparr>ip = 32, sp = 11, bp = 5,
       stack = (\<lambda>_. 0)(0 := 5, 4 := 4, 5 := 1, 6 := 18, 7 := 1, 8 := 9, 9 := 9, 10 := 5)\<rparr>"
  let ?s3 = "\<lparr>ip = 17, sp = 5, bp = 1,
       stack = (\<lambda>_. 0)(0 := 5, 4 := 4, 5 := 1, 6 := 18, 7 := 1, 8 := 9, 9 := 9, 10 := 5,
                     4 := 5)\<rparr>"
  have 1: "dt3_step dt3_program ?s = Inr ?s1"
    by (simp add: dt3_defs)
  have 2: "dt3_step dt3_program ?s2 = Inr ?s3"
    by (simp add: dt3_defs)
  have "\<exists>t1 t2 t3. dt3_step dt3_program ?s = Inr t1 \<and> bp t1 = sp ?s
      \<and> reaches (dt3_step dt3_program) t1 t2 \<and> bp t2 = bp t1 \<and> ip t2 = 32
      \<and> dt3_step dt3_program t2 = Inr t3
      \<and> bp t3 = bp ?s \<and> ip t3 = ip ?s + 3 \<and> sp t3 = sp ?s - 1 + 1
      \<and> stack t3 (sp t3 - 1) = fibw (stack ?s (sp ?s - 1))
      \<and> (\<forall>i. i < sp t3 - 1 \<longrightarrow> stack t3 i = stack ?s i)"
    by (rule dt3_frame_discipline [of ?s dt3_program 1 ?s1 ?s2 ?s3 ?s, THEN conjunct2, rule_format])
      (simp add: dt3_need_def STACK_SIZE_def)
  then have b: "\<exists>t3 :: interpreter. bp t3 = 1 \<and> ip t3 = 17 \<and> sp t3 = 5 \<and> stack t3 4 = 5 \<and> stack t3 0 = 5"
  proof (elim exE conjE)
    fix t1 t2 t3 :: interpreter
    assume t3: "bp t3 = bp ?s" "ip t3 = ip ?s + 3" "sp t3 = sp ?s - 1 + 1"
      "stack t3 (sp t3 - 1) = fibw (stack ?s (sp ?s - 1))"
      "\<forall>i. i < sp t3 - 1 \<longrightarrow> stack t3 i = stack ?s i"
    from t3(3,5) have "stack t3 0 = stack ?s 0" by simp
    with t3 have "bp t3 = 1 \<and> ip t3 = 17 \<and> sp t3 = 5 \<and> stack t3 4 = 5 \<and> stack t3 0 = 5"
      by (simp add: fibw_values)
    then show ?thesis by (rule exI)
  qed
  have "bp ?s3 = bp ?s \<and> ip ?s3 = ip ?s + 3 \<and> sp ?s3 = sp ?s - uint (1 :: word_t) + 1
         \<and> stack ?s3 (sp ?s3 - 1) = stack ?s2 (sp ?s2 - 1)
         \<and> (\<forall>i. i < sp ?s3 - 1 \<longrightarrow> stack ?s3 i = stack ?s i)"
    by (rule dt3_frame_discipline [of ?s dt3_program 1 ?s1 ?s2 ?s3 ?s, THEN conjunct1, rule_format])
      (simp add: 1 2, simp add: dt3_program_def dt3_fib_code_def STACK_SIZE_def)
  with 1 2 b show ?thesis by simp
qed


subsection \<open>C5: jump offsets\<close>

text \<open>
  C5, as amended. For every \<^verbatim>\<open>JMP\<close>, and for every \<^verbatim>\<open>JT\<close> whose popped condition word is
  not zero, the handler of wordcode.c sets \<open>ip\<close> to \<open>ip_after_operand + offset - 2\<close>: the
  offset is counted from the opcode word at the start of the jump instruction, so the new
  \<open>ip\<close> is the index of the opcode word plus the offset. A \<^verbatim>\<open>JT\<close> whose popped condition
  word is zero pops the condition all the same and continues with the next instruction.
\<close>

theorem wc_jump_target:
  "(0 \<le> ip s \<and> ip s + 1 < int (length (code P)) \<and> code P ! nat (ip s) = JMP \<longrightarrow>
      wc_step P s = Inr (s\<lparr>ip := ip s + sint (code P ! nat (ip s + 1))\<rparr>))
   \<and> (0 \<le> ip s \<and> ip s + 1 < int (length (code P)) \<and> code P ! nat (ip s) = JT
        \<and> 0 < sp s \<and> sp s \<le> STACK_SIZE \<longrightarrow>
      wc_step P s =
        Inr (s\<lparr>ip := (if stack s (sp s - 1) \<noteq> 0
                       then ip s + sint (code P ! nat (ip s + 1)) else ip s + 2),
                sp := sp s - 1\<rparr>))"
  by (simp add: wc_step_def fetch_def pop_def bnd_def LIT_def LOAD_def CALL_def PRIM_def
        JT_def JMP_def RET_def)

theorem wc_jump_target_witness:
  "wc_step wc_program \<lparr>ip = 26, sp = 4, bp = 0, stack = \<lambda>_. 0\<rparr>
     = Inr \<lparr>ip = 30, sp = 4, bp = 0, stack = \<lambda>_. 0\<rparr>
   \<and> wc_step wc_program \<lparr>ip = 6, sp = 4, bp = 0, stack = (\<lambda>_. 0)(3 := 1)\<rparr>
     = Inr \<lparr>ip = 28, sp = 3, bp = 0, stack = (\<lambda>_. 0)(3 := 1)\<rparr>"
  using wc_jump_target [of "\<lparr>ip = 26, sp = 4, bp = 0, stack = \<lambda>_. 0\<rparr>" wc_program]
    wc_jump_target [of "\<lparr>ip = 6, sp = 4, bp = 0, stack = (\<lambda>_. 0)(3 := 1)\<rparr>" wc_program]
  by (simp add: wc_program_def wc_fib_code_def LIT_def LOAD_def CALL_def PRIM_def
        JT_def JMP_def RET_def STACK_SIZE_def)

text \<open>
  The claim as stated fails at the \<^verbatim>\<open>JMP\<close> at index 26 of the built-in code, whose operand,
  at index 27, is 4: the handler continues at 30, which is neither the first operand word
  plus the offset nor \<open>ip_after_operand + offset\<close> minus the one operand consumed.
\<close>

theorem wc_jump_target_counterexample:
  "wc_step wc_program \<lparr>ip = 26, sp = 4, bp = 0, stack = \<lambda>_. 0\<rparr>
     = Inr \<lparr>ip = 30, sp = 4, bp = 0, stack = \<lambda>_. 0\<rparr>
   \<and> wc_fib_code ! 27 = 4 \<and> (27 :: int) + 4 \<noteq> 30 \<and> (28 :: int) + 4 - 1 \<noteq> 30"
  by (simp add: wc_defs)

subsection \<open>C6: frame push and frame pop\<close>

text \<open>
  C6, as amended. In handlercode2.c frame push stores exactly three control words (old
  \<open>bp\<close>, old \<open>ip\<close>, argument count) at the new \<open>bp\<close>, and frame pop reads exactly those three
  words at \<open>bp\<close>, \<open>bp + 1\<close> and \<open>bp + 2\<close> and leaves \<open>sp\<close> at \<open>bp\<close> minus the recorded argument
  count, whatever \<open>sp\<close> was before. In wordcode.c the frame has two control words (old
  \<open>bp\<close>, old \<open>ip\<close>) and no argument count: frame pop reads the two words and leaves \<open>sp\<close> at
  \<open>bp\<close>, again whatever \<open>sp\<close> was before.
\<close>

theorem frame_push_pop:
  "(hc2_push_frame s argc = Inr s1 \<longrightarrow>
      bp s1 = sp s \<and> sp s1 = sp s + 3 \<and> ip s1 = ip s
      \<and> stack s1 = (stack s)(sp s := word_of_sp (bp s), sp s + 1 := word_of_ip (ip s),
                               sp s + 2 := argc))
   \<and> (0 \<le> bp s2 \<and> bp s2 + 3 \<le> STACK_SIZE \<longrightarrow>
      hc2_pop_frame s2 =
        Inr (s2\<lparr>ip := ip_of_word (stack s2 (bp s2 + 1)),
                 sp := bp s2 - uint (stack s2 (bp s2 + 2)),
                 bp := sp_of_word (stack s2 (bp s2))\<rparr>))
   \<and> (wc_push_frame s = Inr s1' \<longrightarrow>
      bp s1' = sp s \<and> sp s1' = sp s + 2 \<and> ip s1' = ip s
      \<and> stack s1' = (stack s)(sp s := word_of_sp (bp s), sp s + 1 := word_of_ip (ip s)))
   \<and> (0 \<le> bp s2 \<and> bp s2 + 2 \<le> STACK_SIZE \<longrightarrow>
      wc_pop_frame s2 =
        Inr (s2\<lparr>ip := ip_of_word (stack s2 (bp s2 + 1)), sp := bp s2,
                 bp := sp_of_word (stack s2 (bp s2))\<rparr>))"
proof -
  have 1: "hc2_push_frame s argc = Inr s1 \<longrightarrow>
      bp s1 = sp s \<and> sp s1 = sp s + 3 \<and> ip s1 = ip s
      \<and> stack s1 = (stack s)(sp s := word_of_sp (bp s), sp s + 1 := word_of_ip (ip s),
                               sp s + 2 := argc)"
    by (auto simp: hc2_push_frame_def push_def bnd_def Let_def STACK_SIZE_def
          split: if_splits)
  have 2: "0 \<le> bp s2 \<and> bp s2 + 3 \<le> STACK_SIZE \<longrightarrow>
      hc2_pop_frame s2 =
        Inr (s2\<lparr>ip := ip_of_word (stack s2 (bp s2 + 1)),
                 sp := bp s2 - uint (stack s2 (bp s2 + 2)),
                 bp := sp_of_word (stack s2 (bp s2))\<rparr>)"
    by (simp add: hc2_pop_frame_def pop_def bnd_def Let_def STACK_SIZE_def)
      (simp add: add.commute)
  have 3: "wc_push_frame s = Inr s1' \<longrightarrow>
      bp s1' = sp s \<and> sp s1' = sp s + 2 \<and> ip s1' = ip s
      \<and> stack s1' = (stack s)(sp s := word_of_sp (bp s), sp s + 1 := word_of_ip (ip s))"
    by (auto simp: wc_push_frame_def push_def bnd_def Let_def STACK_SIZE_def
          split: if_splits)
  have 4: "0 \<le> bp s2 \<and> bp s2 + 2 \<le> STACK_SIZE \<longrightarrow>
      wc_pop_frame s2 =
        Inr (s2\<lparr>ip := ip_of_word (stack s2 (bp s2 + 1)), sp := bp s2,
                 bp := sp_of_word (stack s2 (bp s2))\<rparr>)"
    by (simp add: wc_pop_frame_def pop_def bnd_def Let_def STACK_SIZE_def)
      (simp add: add.commute)
  show ?thesis
    by (rule conjI [OF 1 conjI [OF 2 conjI [OF 3 4]]])
qed

theorem frame_push_pop_witness:
  "hc2_push_frame \<lparr>ip = 17, sp = 5, bp = 0, stack = \<lambda>_. 0\<rparr> 1
     = Inr \<lparr>ip = 17, sp = 8, bp = 5, stack = (\<lambda>_. 0)(5 := 0, 6 := 18, 7 := 1)\<rparr>
   \<and> hc2_pop_frame \<lparr>ip = 32, sp = 20, bp = 5, stack = (\<lambda>_. 0)(5 := 0, 6 := 18, 7 := 1)\<rparr>
     = Inr \<lparr>ip = 17, sp = 4, bp = 0, stack = (\<lambda>_. 0)(5 := 0, 6 := 18, 7 := 1)\<rparr>
   \<and> wc_push_frame \<lparr>ip = 16, sp = 3, bp = 0, stack = \<lambda>_. 0\<rparr>
     = Inr \<lparr>ip = 16, sp = 5, bp = 3, stack = (\<lambda>_. 0)(3 := 0, 4 := 17)\<rparr>
   \<and> wc_pop_frame \<lparr>ip = 30, sp = 20, bp = 3, stack = (\<lambda>_. 0)(3 := 0, 4 := 17)\<rparr>
     = Inr \<lparr>ip = 16, sp = 3, bp = 0, stack = (\<lambda>_. 0)(3 := 0, 4 := 17)\<rparr>"
proof -
  have 1: "hc2_push_frame \<lparr>ip = 17, sp = 5, bp = 0, stack = \<lambda>_. 0\<rparr> 1
     = Inr \<lparr>ip = 17, sp = 8, bp = 5, stack = (\<lambda>_. 0)(5 := 0, 6 := 18, 7 := 1)\<rparr>"
    by (simp add: hc2_push_frame_def machine_defs)
  have 2: "wc_push_frame \<lparr>ip = 16, sp = 3, bp = 0, stack = \<lambda>_. 0\<rparr>
     = Inr \<lparr>ip = 16, sp = 5, bp = 3, stack = (\<lambda>_. 0)(3 := 0, 4 := 17)\<rparr>"
    by (simp add: wc_push_frame_def machine_defs)
  show ?thesis
    using frame_push_pop [of "\<lparr>ip = 17, sp = 5, bp = 0, stack = \<lambda>_. 0\<rparr>" 1
        "\<lparr>ip = 17, sp = 8, bp = 5, stack = (\<lambda>_. 0)(5 := 0, 6 := 18, 7 := 1)\<rparr>"
        "\<lparr>ip = 32, sp = 20, bp = 5, stack = (\<lambda>_. 0)(5 := 0, 6 := 18, 7 := 1)\<rparr>"
        "\<lparr>ip = 16, sp = 5, bp = 3, stack = (\<lambda>_. 0)(3 := 0, 4 := 17)\<rparr>"]
      frame_push_pop [of "\<lparr>ip = 16, sp = 3, bp = 0, stack = \<lambda>_. 0\<rparr>" 1
        "\<lparr>ip = 17, sp = 8, bp = 5, stack = (\<lambda>_. 0)(5 := 0, 6 := 18, 7 := 1)\<rparr>"
        "\<lparr>ip = 30, sp = 20, bp = 3, stack = (\<lambda>_. 0)(3 := 0, 4 := 17)\<rparr>"
        "\<lparr>ip = 16, sp = 5, bp = 3, stack = (\<lambda>_. 0)(3 := 0, 4 := 17)\<rparr>"]
    by (simp add: 1 2 STACK_SIZE_def ip_of_word_def sp_of_word_def word_of_sp_def word_of_ip_def)
qed

text \<open>
  The claim as stated fails for the frame push of wordcode.c, which stores two words and
  no argument count.
\<close>

theorem frame_push_pop_counterexample:
  "wc_push_frame \<lparr>ip = 16, sp = 3, bp = 0, stack = \<lambda>_. 0\<rparr>
     = Inr \<lparr>ip = 16, sp = 5, bp = 3, stack = (\<lambda>_. 0)(3 := 0, 4 := 17)\<rparr>"
  by (simp add: wc_push_frame_def machine_defs)

subsection \<open>C7: malformed programs\<close>

text \<open>
  C7, as amended. When \<^verbatim>\<open>execute\<close> of wordcode.c fetches an opcode word that is none of the
  seven opcodes, it aborts, and so does the run of a program that reaches such a word as
  an opcode. The ids of \<^verbatim>\<open>LIT\<close>, \<^verbatim>\<open>PRIM\<close> and \<^verbatim>\<open>CALL\<close> are not checked. A \<^verbatim>\<open>LIT\<close> or \<^verbatim>\<open>PRIM\<close>
  id outside its table indexes the table out of bounds. A \<^verbatim>\<open>CALL\<close> with an id outside the
  function table first pops the argument and pushes the two frame words and the argument,
  all unchecked, and then reads the function table out of bounds: in a state where the
  pop or a push leaves the stack array, that access comes first; otherwise the access
  outside the table does. None of these is reported, and none aborts.
\<close>

theorem wc_malformed:
  "(0 \<le> ip s \<and> ip s < int (length (code P)) \<and> RET < code P ! nat (ip s) \<longrightarrow>
      wc_step P s = Inl Abort)
   \<and> (reaches (wc_step P) s0 s \<and> 0 \<le> ip s \<and> ip s < int (length (code P))
        \<and> RET < code P ! nat (ip s) \<longrightarrow>
      wc_execute P s0 = Some Abort)
   \<and> (0 \<le> ip s \<and> ip s + 1 < int (length (code P)) \<and> code P ! nat (ip s) = LIT
        \<and> length (literals P) \<le> unat (code P ! nat (ip s + 1)) \<longrightarrow>
      wc_step P s = Inl (Undefined Table_Index))
   \<and> (0 \<le> ip s \<and> ip s + 1 < int (length (code P)) \<and> code P ! nat (ip s) = PRIM
        \<and> length prim_handlers \<le> unat (code P ! nat (ip s + 1)) \<longrightarrow>
      wc_step P s = Inl (Undefined Table_Index))
   \<and> (0 \<le> ip s \<and> ip s + 1 < int (length (code P)) \<and> code P ! nat (ip s) = CALL
        \<and> length (functions_t P) \<le> unat (code P ! nat (ip s + 1)) \<longrightarrow>
      wc_step P s = Inl (Undefined
        (if sp s < 1 \<or> STACK_SIZE < sp s then Stack_Load
         else if STACK_SIZE - 2 < sp s then Stack_Store
         else Table_Index)))"
proof -
  have abort: "wc_step P s = Inl Abort"
    if "0 \<le> ip s" "ip s < int (length (code P))" "RET < code P ! nat (ip s)" for s
    using that
    by (auto simp: wc_step_def fetch_def bnd_def LIT_def LOAD_def CALL_def PRIM_def
          JT_def JMP_def RET_def)
  have "wc_execute P s0 = Some Abort"
    if "reaches (wc_step P) s0 s" "0 \<le> ip s" "ip s < int (length (code P))"
      "RET < code P ! nat (ip s)"
    unfolding wc_execute_def
    using that abort [of s] by (blast intro: halts_loop reaches_halts halts_now)
  moreover have "wc_step P s = Inl (Undefined Table_Index)"
    if "0 \<le> ip s" "ip s + 1 < int (length (code P))" "code P ! nat (ip s) = LIT"
      "length (literals P) \<le> unat (code P ! nat (ip s + 1))"
    using that
    by (simp add: wc_step_def fetch_def bnd_def lookup_def nat_add_distrib)
  moreover have "wc_step P s = Inl (Undefined Table_Index)"
    if "0 \<le> ip s" "ip s + 1 < int (length (code P))" "code P ! nat (ip s) = PRIM"
      "length prim_handlers \<le> unat (code P ! nat (ip s + 1))"
    using that
    by (simp add: wc_step_def fetch_def bnd_def lookup_def nat_add_distrib
          LIT_def LOAD_def CALL_def PRIM_def)
  moreover have "wc_step P s = Inl (Undefined
        (if sp s < 1 \<or> STACK_SIZE < sp s then Stack_Load
         else if STACK_SIZE - 2 < sp s then Stack_Store
         else Table_Index))"
    if "0 \<le> ip s" "ip s + 1 < int (length (code P))" "code P ! nat (ip s) = CALL"
      "length (functions_t P) \<le> unat (code P ! nat (ip s + 1))"
    using that
    by (simp add: wc_step_def fetch_def bnd_def lookup_def nat_add_distrib
          pop_def push_def wc_push_frame_def Let_def STACK_SIZE_def
          LIT_def LOAD_def CALL_def)
  ultimately show ?thesis using abort [of s] by blast
qed

theorem wc_malformed_witness:
  "wc_step \<lparr>code = [LOAD, 0, 7, RET], literals = [2, 1],
             functions_t = [\<lparr>frame_size = 1, entry = 0\<rparr>]\<rparr>
     \<lparr>ip = 2, sp = 4, bp = 0, stack = \<lambda>_. 0\<rparr> = Inl Abort
   \<and> wc_execute \<lparr>code = [LOAD, 0, 7, RET], literals = [2, 1],
             functions_t = [\<lparr>frame_size = 1, entry = 0\<rparr>]\<rparr>
     \<lparr>ip = 2, sp = 4, bp = 0, stack = \<lambda>_. 0\<rparr> = Some Abort
   \<and> wc_step \<lparr>code = [LIT, 2, PRIM, 3, CALL, 1], literals = [2, 1],
             functions_t = [\<lparr>frame_size = 1, entry = 0\<rparr>]\<rparr>
     \<lparr>ip = 0, sp = 3, bp = 0, stack = \<lambda>_. 0\<rparr> = Inl (Undefined Table_Index)
   \<and> wc_step \<lparr>code = [LIT, 2, PRIM, 3, CALL, 1], literals = [2, 1],
             functions_t = [\<lparr>frame_size = 1, entry = 0\<rparr>]\<rparr>
     \<lparr>ip = 2, sp = 3, bp = 0, stack = \<lambda>_. 0\<rparr> = Inl (Undefined Table_Index)
   \<and> wc_step \<lparr>code = [LIT, 2, PRIM, 3, CALL, 1], literals = [2, 1],
             functions_t = [\<lparr>frame_size = 1, entry = 0\<rparr>]\<rparr>
     \<lparr>ip = 4, sp = 3, bp = 0, stack = \<lambda>_. 0\<rparr> = Inl (Undefined Table_Index)
   \<and> wc_step \<lparr>code = [LIT, 2, PRIM, 3, CALL, 1], literals = [2, 1],
             functions_t = [\<lparr>frame_size = 1, entry = 0\<rparr>]\<rparr>
     \<lparr>ip = 4, sp = 0, bp = 0, stack = \<lambda>_. 0\<rparr> = Inl (Undefined Stack_Load)
   \<and> wc_step \<lparr>code = [LIT, 2, PRIM, 3, CALL, 1], literals = [2, 1],
             functions_t = [\<lparr>frame_size = 1, entry = 0\<rparr>]\<rparr>
     \<lparr>ip = 4, sp = 1023, bp = 0, stack = \<lambda>_. 0\<rparr> = Inl (Undefined Stack_Store)"
proof -
  let ?P = "\<lparr>code = [LOAD, 0, 7, RET], literals = [2, 1],
             functions_t = [\<lparr>frame_size = 1, entry = 0\<rparr>]\<rparr>"
  let ?Q = "\<lparr>code = [LIT, 2, PRIM, 3, CALL, 1], literals = [2, 1],
             functions_t = [\<lparr>frame_size = 1, entry = 0\<rparr>]\<rparr>"
  let ?s = "\<lparr>ip = 2, sp = 4, bp = 0, stack = \<lambda>_. 0\<rparr>"
  show ?thesis
    using reaches_refl [of "wc_step ?P" ?s] wc_malformed [of ?s ?P ?s]
      wc_malformed [of "\<lparr>ip = 0, sp = 3, bp = 0, stack = \<lambda>_. 0\<rparr>" ?Q ?s]
      wc_malformed [of "\<lparr>ip = 2, sp = 3, bp = 0, stack = \<lambda>_. 0\<rparr>" ?Q ?s]
      wc_malformed [of "\<lparr>ip = 4, sp = 3, bp = 0, stack = \<lambda>_. 0\<rparr>" ?Q ?s]
      wc_malformed [of "\<lparr>ip = 4, sp = 0, bp = 0, stack = \<lambda>_. 0\<rparr>" ?Q ?s]
      wc_malformed [of "\<lparr>ip = 4, sp = 1023, bp = 0, stack = \<lambda>_. 0\<rparr>" ?Q ?s]
    by (simp add: LIT_def LOAD_def CALL_def PRIM_def RET_def prim_handlers_def
          STACK_SIZE_def)
qed

text \<open>
  The claim as stated fails for a \<^verbatim>\<open>LIT\<close> id outside the literal table: the program
  \<^verbatim>\<open>LIT 2; RET\<close> reads \<^verbatim>\<open>literals[2]\<close> of a table of two words and does not abort.
\<close>

theorem wc_malformed_counterexample:
  "wc_start \<lparr>code = [LIT, 2, RET], literals = [2, 1],
              functions_t = [\<lparr>frame_size = 1, entry = 0\<rparr>]\<rparr> (\<lambda>_. 0) 5
     = Some (Undefined Table_Index)"
  unfolding wc_start_def wc_execute_def
  by (simp add: wc_init_def machine_defs, rule halts_loop, rule halts_now) (simp add: wc_defs)


subsection \<open>C8: push and pop are unchecked\<close>

lemma sint_eq_1: "sint (n :: word_t) = 1 \<Longrightarrow> n = 1"
proof -
  assume "sint n = 1"
  then have "word_of_int (sint n) = (word_of_int 1 :: word_t)" by simp
  then show ?thesis by simp
qed

text \<open>The chain of first recursive calls of the Fibonacci program of wordcode.c.\<close>

lemma wc_descent:
  "ip s = 0 \<Longrightarrow> 0 \<le> bp s \<Longrightarrow> sp s = bp s + 3 \<Longrightarrow> stack s (bp s + 2) = n \<Longrightarrow>
   1 \<le> sint n \<Longrightarrow> sp s + 3 * (sint n - 1) \<le> 1024 \<Longrightarrow>
   \<exists>s'. reaches (wc_step wc_program) s s' \<and> ip s' = 0 \<and> sp s' = sp s + 3 * (sint n - 1)
        \<and> bp s' = sp s' - 3 \<and> stack s' (sp s' - 1) = 1"
proof (induction "nat (sint n)" arbitrary: n s rule: less_induct)
  case less
  note s = \<open>ip s = 0\<close> \<open>0 \<le> bp s\<close> \<open>sp s = bp s + 3\<close> \<open>stack s (bp s + 2) = n\<close>
  note fits = \<open>sp s + 3 * (sint n - 1) \<le> 1024\<close>
  show ?case
  proof (cases "sint n = 1")
    case True
    then have "n = 1" by (rule sint_eq_1)
    with s True have "reaches (wc_step wc_program) s s \<and> ip s = 0
        \<and> sp s = sp s + 3 * (sint n - 1) \<and> bp s = sp s - 3 \<and> stack s (sp s - 1) = 1"
      by (simp add: reaches_refl add.commute [of "2 :: int"])
    then show ?thesis by blast
  next
    case False
    with \<open>1 \<le> sint n\<close> have n2: "2 \<le> sint n" by simp
    with fits have fit: "sp s + 3 \<le> 1024" by simp
    have "\<exists>s1. reaches (wc_step wc_program) s s1 \<and> ip s1 = 0 \<and> bp s1 = sp s
            \<and> sp s1 = sp s + 3 \<and> stack s1 (sp s + 2) = n - 1"
      using s fit n2
      apply -
      apply (rule exI, rule conjI)
      apply (rule reaches_step, simp add: wc_defs)
      apply (rule reaches_step, simp add: wc_defs)
      apply (rule reaches_step, simp add: wc_defs)
      apply (rule reaches_step, simp add: wc_defs)
      apply (rule reaches_step, simp add: wc_defs)
      apply (rule reaches_step, simp add: wc_defs)
      apply (rule reaches_step, simp add: wc_defs)
      apply (rule reaches_step, simp add: wc_defs)
      apply (rule reaches_refl)
      apply (simp add: wc_defs)
      done
    then obtain s1 where s1: "reaches (wc_step wc_program) s s1" "ip s1 = 0" "bp s1 = sp s"
      "sp s1 = sp s + 3" "stack s1 (sp s + 2) = n - 1"
      by blast
    have m1: "nat (sint (n - 1)) < nat (sint n)" using n2 by (simp add: sint_minus_1)
    have "\<exists>s'. reaches (wc_step wc_program) s1 s' \<and> ip s' = 0
        \<and> sp s' = sp s1 + 3 * (sint (n - 1) - 1)
        \<and> bp s' = sp s' - 3 \<and> stack s' (sp s' - 1) = 1"
      using s s1 n2 fits by (intro less.hyps [OF m1]) (simp_all add: sint_minus_1)
    then obtain s' where s': "reaches (wc_step wc_program) s1 s'" "ip s' = 0"
      "sp s' = sp s1 + 3 * (sint (n - 1) - 1)" "bp s' = sp s' - 3" "stack s' (sp s' - 1) = 1"
      by blast
    have "reaches (wc_step wc_program) s s'"
      using s1(1) s'(1) by (rule reaches_trans)
    moreover have "sp s' = sp s + 3 * (sint n - 1)"
      using s'(3) s1(4) n2 by (simp add: sint_minus_1)
    ultimately show ?thesis using s'(2,4,5) by blast
  qed
qed

text \<open>
  C8. \<^verbatim>\<open>push\<close> and \<^verbatim>\<open>pop\<close> of wordcode.c have no bounds check. With the argument 341 the
  built-in program reaches, by interpreted recursion alone, a \<^verbatim>\<open>LIT\<close> instruction with \<open>sp\<close>
  equal to \<^verbatim>\<open>STACK_SIZE\<close>, whose push stores to \<^verbatim>\<open>stack[STACK_SIZE]\<close>; the program
  \<^verbatim>\<open>PRIM 2; PRIM 2; PRIM 2\<close> pops the three initial words and then reads \<^verbatim>\<open>stack[-1]\<close>.
  Neither run aborts: no failure is reported, and C gives the access no meaning.
\<close>

theorem wc_stack_unchecked:
  "(\<exists>s0 s. wc_init wc_program (\<lambda>_. 0) 341 = Inr s0 \<and> reaches (wc_step wc_program) s0 s
        \<and> sp s = STACK_SIZE \<and> wc_fib_code ! nat (ip s) = LIT
        \<and> wc_step wc_program s = Inl (Undefined Stack_Store))
   \<and> wc_main 341 = Some (Undefined Stack_Store)
   \<and> wc_start \<lparr>code = [PRIM, 2, PRIM, 2, PRIM, 2], literals = [2, 1],
                 functions_t = [\<lparr>frame_size = 1, entry = 0\<rparr>]\<rparr> (\<lambda>_. 0) 5
        = Some (Undefined Stack_Load)"
proof (intro conjI)
  let ?s0 = "\<lparr>ip = 0, sp = 3, bp = 0, stack = (\<lambda>_. 0)(0 := 0, 1 := 0, 2 := 341)\<rparr>"
  have "\<exists>s'. reaches (wc_step wc_program) ?s0 s' \<and> ip s' = 0
        \<and> sp s' = sp ?s0 + 3 * (sint (341 :: word_t) - 1)
        \<and> bp s' = sp s' - 3 \<and> stack s' (sp s' - 1) = 1"
    by (rule wc_descent) simp_all
  then obtain s' where s': "reaches (wc_step wc_program) ?s0 s'" "ip s' = 0" "sp s' = 1023"
    "bp s' = 1020" "stack s' 1022 = 1"
    by auto
  have "\<exists>s. wc_step wc_program s' = Inr s \<and> ip s = 2 \<and> sp s = 1024 \<and> bp s = 1020"
    using s'(2-) by (simp add: wc_defs)
  then obtain s where s: "wc_step wc_program s' = Inr s" "ip s = 2" "sp s = 1024" "bp s = 1020"
    by blast
  have "reaches (wc_step wc_program) ?s0 s"
    using s'(1) s(1) by (blast intro: reaches_trans reaches_step reaches_refl)
  moreover have "wc_step wc_program s = Inl (Undefined Stack_Store)"
    using s(2-) by (simp add: wc_defs)
  moreover have "wc_fib_code ! nat (ip s) = LIT"
    using s(2) by (simp add: wc_fib_code_def)
  ultimately show "\<exists>s0 s. wc_init wc_program (\<lambda>_. 0) 341 = Inr s0
        \<and> reaches (wc_step wc_program) s0 s
        \<and> sp s = STACK_SIZE \<and> wc_fib_code ! nat (ip s) = LIT
        \<and> wc_step wc_program s = Inl (Undefined Stack_Store)"
    using s(3) by (auto simp: wc_init STACK_SIZE_def)
next
  show "wc_main 341 = Some (Undefined Stack_Store)"
    by (simp add: wc_main_def wc_result)
next
  show "wc_start \<lparr>code = [PRIM, 2, PRIM, 2, PRIM, 2], literals = [2, 1],
                 functions_t = [\<lparr>frame_size = 1, entry = 0\<rparr>]\<rparr> (\<lambda>_. 0) 5
        = Some (Undefined Stack_Load)"
    unfolding wc_start_def wc_execute_def
    apply (simp add: wc_init_def machine_defs)
    apply (rule halts_loop)
    apply (rule halts_later, simp add: wc_defs)
    apply (rule halts_later, simp add: wc_defs)
    apply (rule halts_now, simp add: wc_defs)
    done
qed

subsection \<open>C9: no residue of earlier calls\<close>

text \<open>
  An \<^verbatim>\<open>execute\<close> of directthreaded2.c whose recursion fits the stack returns, and leaves
  its argument and its result in the static array.
\<close>

lemma dt2_returns:
  assumes "sint n \<le> 204"
  shows "\<exists>s'. reaches (dt2_step dt2_program)
                 \<lparr>ip = 0, sp = 4, bp = 0, stack = stk(0 := 0, 1 := 0, 2 := 0, 3 := n)\<rparr> s'
      \<and> dt2_step dt2_program s' = Inl (Return (fibw n))
      \<and> stack s' 3 = n \<and> stack s' 4 = fibw n"
proof -
  let ?s0 = "\<lparr>ip = 0, sp = 4, bp = 0, stack = stk(0 := 0, 1 := 0, 2 := 0, 3 := n)\<rparr>"
  have pre: "ip ?s0 = 0" "0 \<le> bp ?s0" "sp ?s0 = bp ?s0 + 4" "stack ?s0 (bp ?s0 + 3) = n"
    by simp_all
  from assms have "sp ?s0 + dt2_need n \<le> 1024" by (simp add: dt2_need_def)
  with pre have "\<exists>s'. reaches (dt2_step dt2_program) ?s0 s' \<and> ip s' = 32 \<and> bp s' = bp ?s0
      \<and> sp s' = sp ?s0 + 1
      \<and> (\<forall>i. i \<le> sp ?s0 \<longrightarrow> stack s' i = ((stack ?s0)(sp ?s0 := fibw n)) i)"
    by (intro dt2_fib_body)
  then obtain s' where s': "reaches (dt2_step dt2_program) ?s0 s'" "ip s' = 32" "bp s' = 0"
    "sp s' = 4 + 1"
    "\<forall>i. i \<le> 4 \<longrightarrow> stack s' i = (stk(0 := 0, 1 := 0, 2 := 0, 3 := n, 4 := fibw n)) i"
    by auto
  have "dt2_step dt2_program s' = Inl (Return (fibw n))"
    using s'(2-) by (simp add: dt2_defs)
  moreover from s'(5) have "stack s' 3 = n" "stack s' 4 = fibw n" by simp_all
  ultimately show ?thesis using s'(1) by blast
qed

lemma dt2_call_returns:
  assumes "sint a \<le> 204"
  shows "\<exists>stk1. dt2_call stk a = Some (Return (fibw a), stk1) \<and> stk1 3 = a \<and> stk1 4 = fibw a"
proof -
  from dt2_returns [OF assms, of stk]
  obtain s' where s': "reaches (dt2_step dt2_program)
        \<lparr>ip = 0, sp = 4, bp = 0, stack = stk(0 := 0, 1 := 0, 2 := 0, 3 := a)\<rparr> s'"
    "dt2_step dt2_program s' = Inl (Return (fibw a))" "stack s' 3 = a" "stack s' 4 = fibw a"
    by blast
  from reaches_loop_final [OF s'(1,2)]
  have "dt2_call stk a = Some (Return (fibw a), stack s')"
    by (simp add: dt2_call_def dt2_init)
  with s'(3,4) show ?thesis by blast
qed

lemma dt2_call_overflows:
  assumes "204 < sint a"
  shows "\<exists>stk1. dt2_call stk a = Some (Undefined Stack_Store, stk1)"
proof -
  from assms dt2_halts [OF dt2_init, of stk a]
  have "halts (dt2_step dt2_program)
          \<lparr>ip = 0, sp = 4, bp = 0, stack = stk(0 := 0, 1 := 0, 2 := 0, 3 := a)\<rparr>
          (Undefined Stack_Store)"
    by simp
  then obtain s' where s': "reaches (dt2_step dt2_program)
        \<lparr>ip = 0, sp = 4, bp = 0, stack = stk(0 := 0, 1 := 0, 2 := 0, 3 := a)\<rparr> s'"
    "dt2_step dt2_program s' = Inl (Undefined Stack_Store)"
    by (blast dest: halts_reaches)
  from reaches_loop_final [OF s']
  have "dt2_call stk a = Some (Undefined Stack_Store, stack s')"
    by (simp add: dt2_call_def dt2_init)
  then show ?thesis by blast
qed

text \<open>
  C9, as amended. \<^verbatim>\<open>execute\<close> of directthreaded2.c works on the static stack array, which
  keeps what earlier calls have written; the registers are locals and the tables are
  never written. The outcome of a call does not depend on what the array holds when the
  call starts. An earlier call \<^verbatim>\<open>execute(a)\<close> whose recursion fits the stack,
  \<open>a \<le> 204\<close>, returns, leaves its argument and its result (and more) in the array, and
  does not change the outcome of a later call \<^verbatim>\<open>execute(b)\<close>: for \<open>b \<le> 204\<close> the later
  call returns the value of the function at \<open>b\<close>, as it does in a fresh process. Nothing
  is said of a call made after an earlier call with \<open>a > 204\<close>.
\<close>

theorem dt2_execute_no_residue:
  "dt2_execute stk b = dt2_execute stk' b
   \<and> (sint a \<le> 204 \<longrightarrow>
        (\<exists>stk1. dt2_call stk a = Some (Return (fibw a), stk1) \<and> stk1 3 = a \<and> stk1 4 = fibw a)
        \<and> dt2_execute_after stk a b = dt2_execute stk' b)
   \<and> (sint a \<le> 204 \<and> sint b \<le> 204 \<longrightarrow>
        dt2_execute_after stk a b = Some (Return (fibw b))
        \<and> dt2_execute stk' b = Some (Return (fibw b)))"
proof -
  have 1: "dt2_execute stk b = dt2_execute stk' b"
    by (simp add: dt2_result)
  have 2: "dt2_execute_after stk a b = dt2_execute stk' b" if "sint a \<le> 204"
  proof -
    from dt2_call_returns [OF that, of stk]
    obtain stk1 where "dt2_call stk a = Some (Return (fibw a), stk1)" by blast
    then show ?thesis by (simp add: dt2_execute_after_def dt2_result)
  qed
  have 3: "dt2_execute stk' b = Some (Return (fibw b))" if "sint b \<le> 204"
    using that by (simp add: dt2_result)
  from 1 2 3 dt2_call_returns [of a stk] show ?thesis by simp
qed

theorem dt2_execute_no_residue_witness:
  "sint (10 :: word_t) \<le> 204 \<and> sint (5 :: word_t) \<le> 204
   \<and> (\<exists>stk1. dt2_call (\<lambda>_. 7) 10 = Some (Return 89, stk1) \<and> stk1 3 = 10 \<and> stk1 4 = 89)
   \<and> dt2_execute_after (\<lambda>_. 7) 10 5 = Some (Return 8)
   \<and> dt2_execute (\<lambda>_. 0) 5 = Some (Return 8)"
  using dt2_execute_no_residue [of "\<lambda>_. 7" 5 "\<lambda>_. 0" 10] by (simp add: fibw_values)

text \<open>
  The claim as stated, for any earlier call, fails for an earlier call with the argument
  205. Alone, \<^verbatim>\<open>execute(10)\<close> returns 89. The recursion of \<^verbatim>\<open>execute(205)\<close> does not fit
  the stack: before it comes to its \<^verbatim>\<open>return\<close>, the call stores past the end of the
  static array, into memory that does not belong to it. The behaviour of the process is
  undefined from that store on, and the outcome 89 of a later \<^verbatim>\<open>execute(10)\<close> no longer
  holds.
\<close>

theorem dt2_execute_no_residue_counterexample:
  "dt2_execute (\<lambda>_. 0) 10 = Some (Return 89)
   \<and> dt2_execute_after (\<lambda>_. 0) 205 10 = Some (Undefined Stack_Store)"
proof -
  have "204 < sint (205 :: word_t)" by simp
  from dt2_call_overflows [OF this, of "\<lambda>_. 0"]
  obtain stk1 where "dt2_call (\<lambda>_. 0) 205 = Some (Undefined Stack_Store, stk1)" by blast
  then show ?thesis by (simp add: dt2_execute_after_def dt2_result fibw_values)
qed

subsection \<open>C10: termination of the built-in program of wordcode.c\<close>

text \<open>
  C10, as amended. For every argument \<open>n \<le> 340\<close> (signed), the dispatch loop started by
  \<^verbatim>\<open>main\<close> of wordcode.c ends after finitely many iterations by the outermost
  \<^verbatim>\<open>RET\<close>; for \<open>n < 2\<close>, negative values included, it does so after the six instructions
  of the base case. For \<open>n > 340\<close> the recursion needs more than the 1024 words of the
  stack array: the run comes to an instruction whose push stores outside the array. The
  loop has no exit there, the behaviour of the program is undefined from that store on,
  and nothing is said about whether it ends.
\<close>

theorem wc_terminates:
  "(sint n \<le> 340 \<longrightarrow>
      (\<exists>s0 k. wc_init wc_program (\<lambda>_. 0) n = Inr s0
             \<and> run (wc_step wc_program) k s0 = Inl (Return (fibw n))))
   \<and> (sint n < 2 \<longrightarrow>
      (\<exists>s0. wc_init wc_program (\<lambda>_. 0) n = Inr s0
           \<and> run (wc_step wc_program) 6 s0 = Inl (Return 1)))
   \<and> (340 < sint n \<longrightarrow>
      (\<exists>s0 s. wc_init wc_program (\<lambda>_. 0) n = Inr s0
           \<and> reaches (wc_step wc_program) s0 s
           \<and> wc_step wc_program s = Inl (Undefined Stack_Store)))"
proof (intro conjI impI)
  assume "sint n \<le> 340"
  with wc_halts [OF wc_init, of "\<lambda>_. 0" n]
  show "\<exists>s0 k. wc_init wc_program (\<lambda>_. 0) n = Inr s0
             \<and> run (wc_step wc_program) k s0 = Inl (Return (fibw n))"
    by (auto simp: halts_def wc_init)
next
  assume "sint n < 2"
  then show "\<exists>s0. wc_init wc_program (\<lambda>_. 0) n = Inr s0
           \<and> run (wc_step wc_program) 6 s0 = Inl (Return 1)"
  proof -
    have six: "(6 :: nat) = Suc (Suc (Suc (Suc (Suc (Suc 0)))))" by simp
    from \<open>sint n < 2\<close>
    have "run (wc_step wc_program) 6 \<lparr>ip = 0, sp = 3, bp = 0, stack = (\<lambda>_. 0)(0 := 0, 1 := 0, 2 := n)\<rparr>
            = Inl (Return 1)"
      unfolding six
      apply -
      apply (rule run_later, simp add: wc_defs)
      apply (rule run_later, simp add: wc_defs)
      apply (rule run_later, simp add: wc_defs)
      apply (rule run_later, simp add: wc_defs)
      apply (rule run_later, simp add: wc_defs)
      apply (rule run_now, simp add: wc_defs)
      done
    then show ?thesis by (simp add: wc_init)
  qed
next
  assume "340 < sint n"
  with wc_halts [OF wc_init, of "\<lambda>_. 0" n]
  have "halts (wc_step wc_program)
          \<lparr>ip = 0, sp = 3, bp = 0, stack = (\<lambda>_. 0)(0 := 0, 1 := 0, 2 := n)\<rparr>
          (Undefined Stack_Store)"
    by simp
  then show "\<exists>s0 s. wc_init wc_program (\<lambda>_. 0) n = Inr s0
           \<and> reaches (wc_step wc_program) s0 s
           \<and> wc_step wc_program s = Inl (Undefined Stack_Store)"
    by (auto simp: wc_init dest: halts_reaches)
qed

theorem wc_terminates_witness:
  "sint (3 :: word_t) \<le> 340 \<and> sint (- 7 :: word_t) < 2 \<and> 340 < sint (341 :: word_t)
   \<and> (\<exists>s0 k. wc_init wc_program (\<lambda>_. 0) 3 = Inr s0
             \<and> run (wc_step wc_program) k s0 = Inl (Return 3))
   \<and> (\<exists>s0. wc_init wc_program (\<lambda>_. 0) (- 7) = Inr s0
           \<and> run (wc_step wc_program) 6 s0 = Inl (Return 1))
   \<and> (\<exists>s0 s. wc_init wc_program (\<lambda>_. 0) 341 = Inr s0
           \<and> reaches (wc_step wc_program) s0 s
           \<and> wc_step wc_program s = Inl (Undefined Stack_Store))"
  using wc_terminates [of 3] wc_terminates [of "- 7"] wc_terminates [of 341]
  by (simp add: fibw_values)

text \<open>
  The claim as stated, for every 64-bit argument, fails at 1000: the run does not come to
  the outermost \<^verbatim>\<open>RET\<close> but to a store past the end of the stack array.
\<close>

theorem wc_terminates_counterexample:
  "wc_main 1000 = Some (Undefined Stack_Store)"
  by (simp add: wc_main_def wc_result)


end
